theory Spec2Isabelle
  imports Main "HOL-Library.Word" "HOL-Library.Multiset"
begin

section \<open>Bytes, strings and errors\<close>

text \<open>
  A Python \<^verbatim>\<open>bytes\<close> object is a list of 8-bit words. A Python \<^verbatim>\<open>str\<close> is a list of
  Unicode code points (natural numbers below \<open>0x110000\<close>). Python integers are
  unbounded, so they are \<open>int\<close>. Every exception the code can raise is a value of
  \<open>error\<close>, carrying the message of the source. \<open>StructError\<close> is \<^verbatim>\<open>struct.error\<close>; its
  message depends on the field code and on the interpreter and is left out.
\<close>

type_synonym byte = "8 word"
type_synonym bytes = "byte list"
type_synonym str = "nat list"

datatype error =
    ValueError string
  | ConnectionError string
  | IndexError string
  | EOFError string
  | StructError

definition str_lit :: "string \<Rightarrow> str" where
  "str_lit s = map of_char s"

definition bytes_lit :: "string \<Rightarrow> bytes" where
  "bytes_lit s = map of_char s"

subsection \<open>The built-in UTF-8 codec with \<^verbatim>\<open>errors="ignore"\<close>\<close>

text \<open>
  \<^verbatim>\<open>name.encode("utf-8", errors="ignore")\<close>: one to four bytes per code point; a
  surrogate (\<open>0xD800..0xDFFF\<close>) cannot be encoded and is dropped.
\<close>

definition utf8_encode_cp :: "nat \<Rightarrow> bytes" where
  "utf8_encode_cp c =
     (if c < 0x80 then [of_nat c]
      else if c < 0x800 then [of_nat (0xC0 + c div 64), of_nat (0x80 + c mod 64)]
      else if c < 0x10000 then
        (if 0xD800 \<le> c \<and> c < 0xE000 then []
         else [of_nat (0xE0 + c div 4096), of_nat (0x80 + c div 64 mod 64),
               of_nat (0x80 + c mod 64)])
      else if c < 0x110000 then
        [of_nat (0xF0 + c div 262144), of_nat (0x80 + c div 4096 mod 64),
         of_nat (0x80 + c div 64 mod 64), of_nat (0x80 + c mod 64)]
      else [])"

definition utf8_encode :: "str \<Rightarrow> bytes" where
  "utf8_encode s = concat (map utf8_encode_cp s)"

text \<open>
  \<^verbatim>\<open>raw.decode("utf-8", errors="ignore")\<close>. One step of the decoder reads the byte
  values at the front of the input and returns the code point it decoded (or \<open>None\<close> for
  an ill-formed piece, which is ignored) together with the number of bytes it consumed:
  an invalid start byte consumes one byte, an invalid continuation byte consumes the
  bytes before it, and a sequence cut off by the end of the input consumes the rest.
\<close>

definition cont :: "nat \<Rightarrow> bool" where
  "cont b = (0x80 \<le> b \<and> b < 0xC0)"

fun utf8_step :: "nat list \<Rightarrow> nat option \<times> nat" where
  "utf8_step [] = (None, 0)"
| "utf8_step (ch # rest) =
     (if ch < 0x80 then (Some ch, 1)
      else if ch < 0xE0 then
        (if ch < 0xC2 then (None, 1)
         else (case rest of
             [] \<Rightarrow> (None, 1)
           | b2 # _ \<Rightarrow>
               if \<not> cont b2 then (None, 1)
               else (Some (ch * 64 + b2 - 0x3080), 2)))
      else if ch < 0xF0 then
        (case rest of
           [] \<Rightarrow> (None, 1)
         | [b2] \<Rightarrow>
             if \<not> cont b2 \<or> (if b2 < 0xA0 then ch = 0xE0 else ch = 0xED) then (None, 1)
             else (None, 2)
         | b2 # b3 # _ \<Rightarrow>
             if \<not> cont b2 then (None, 1)
             else if ch = 0xE0 \<and> b2 < 0xA0 then (None, 1)
             else if ch = 0xED \<and> 0xA0 \<le> b2 then (None, 1)
             else if \<not> cont b3 then (None, 2)
             else (Some (ch * 4096 + b2 * 64 + b3 - 0xE2080), 3))
      else if ch < 0xF5 then
        (case rest of
           [] \<Rightarrow> (None, 1)
         | [b2] \<Rightarrow>
             if \<not> cont b2 \<or> (if b2 < 0x90 then ch = 0xF0 else ch = 0xF4) then (None, 1)
             else (None, 2)
         | [b2, b3] \<Rightarrow>
             if \<not> cont b2 \<or> (if b2 < 0x90 then ch = 0xF0 else ch = 0xF4) then (None, 1)
             else if \<not> cont b3 then (None, 2)
             else (None, 3)
         | b2 # b3 # b4 # _ \<Rightarrow>
             if \<not> cont b2 then (None, 1)
             else if ch = 0xF0 \<and> b2 < 0x90 then (None, 1)
             else if ch = 0xF4 \<and> 0x90 \<le> b2 then (None, 1)
             else if \<not> cont b3 then (None, 2)
             else if \<not> cont b4 then (None, 3)
             else (Some (ch * 262144 + b2 * 4096 + b3 * 64 + b4 - 0x3C82080), 4))
      else (None, 1))"

lemma utf8_step_pos: "ns \<noteq> [] \<Longrightarrow> 0 < snd (utf8_step ns)"
  by (cases ns) (auto split: list.splits)

function utf8_decode_loop :: "nat list \<Rightarrow> str" where
  "utf8_decode_loop ns =
     (if ns = [] then []
      else (case utf8_step ns of
              (r, k) \<Rightarrow> (case r of None \<Rightarrow> [] | Some c \<Rightarrow> [c]) @ utf8_decode_loop (drop k ns)))"
  by pat_completeness auto
termination
  apply (relation "measure length")
   apply simp
  subgoal for ns a b
    using utf8_step_pos [of ns]
    by (cases ns) (auto simp del: utf8_step.simps dest!: sym [of "(a, b)"])
  done

declare utf8_decode_loop.simps [simp del]

definition utf8_decode :: "bytes \<Rightarrow> str" where
  "utf8_decode raw = utf8_decode_loop (map unat raw)"

text \<open>
  \<^verbatim>\<open>decision.lower()\<close>. Only the ASCII letters are mapped here. The code compares the
  result with the literals \<^verbatim>\<open>"hit"\<close> and \<^verbatim>\<open>"stand"\<close> only, and no code point outside ASCII
  has one of their letters as its lower case, so the comparison is the same.
\<close>

definition lower :: "str \<Rightarrow> str" where
  "lower s = map (\<lambda>c. if 65 \<le> c \<and> c \<le> 90 then c + 32 else c) s"

text \<open>\<^verbatim>\<open>raw.rstrip(b"\x00")\<close> and \<^verbatim>\<open>raw.ljust(n, b"\x00")\<close>.\<close>

definition rstrip0 :: "bytes \<Rightarrow> bytes" where
  "rstrip0 raw = rev (dropWhile (\<lambda>b. b = 0) (rev raw))"

definition ljust0 :: "bytes \<Rightarrow> nat \<Rightarrow> bytes" where
  "ljust0 raw n = raw @ replicate (n - length raw) 0"

subsection \<open>The \<^verbatim>\<open>struct\<close> module, network byte order\<close>

text \<open>
  The format strings of the protocol use four field codes: \<^verbatim>\<open>I\<close> (4 bytes), \<^verbatim>\<open>H\<close>
  (2 bytes), \<^verbatim>\<open>B\<close> (1 byte), all unsigned and big-endian, and \<^verbatim>\<open>ns\<close> (n bytes, cut or
  padded with zero bytes). With \<^verbatim>\<open>!\<close> there is no alignment padding. Packing an integer
  outside its field's range raises \<^verbatim>\<open>struct.error\<close>.
\<close>

datatype fld = I | H | B | S nat

fun fld_size :: "fld \<Rightarrow> nat" where
  "fld_size I = 4"
| "fld_size H = 2"
| "fld_size B = 1"
| "fld_size (S n) = n"

definition calcsize :: "fld list \<Rightarrow> nat" where
  "calcsize fmt = sum_list (map fld_size fmt)"

definition pack_B :: "int \<Rightarrow> error + bytes" where
  "pack_B v = (if 0 \<le> v \<and> v \<le> 255 then Inr [of_int v]
               else Inl StructError)"

definition pack_H :: "int \<Rightarrow> error + bytes" where
  "pack_H v = (if 0 \<le> v \<and> v \<le> 65535 then Inr [of_int (v div 256), of_int v]
               else Inl StructError)"

definition pack_I :: "int \<Rightarrow> error + bytes" where
  "pack_I v = (if 0 \<le> v \<and> v \<le> 4294967295
               then Inr [of_int (v div 16777216), of_int (v div 65536), of_int (v div 256), of_int v]
               else Inl StructError)"

definition pack_s :: "nat \<Rightarrow> bytes \<Rightarrow> error + bytes" where
  "pack_s n raw = Inr (take n raw @ replicate (n - length raw) 0)"

fun struct_pack :: "(error + bytes) list \<Rightarrow> error + bytes" where
  "struct_pack [] = Inr []"
| "struct_pack (Inl e # fs) = Inl e"
| "struct_pack (Inr b # fs) = (case struct_pack fs of Inl e \<Rightarrow> Inl e | Inr bs \<Rightarrow> Inr (b @ bs))"

definition unpack_uint :: "bytes \<Rightarrow> int" where
  "unpack_uint raw = foldl (\<lambda>acc b. acc * 256 + uint b) 0 raw"

section \<open>protocol.py\<close>

definition MAGIC_COOKIE :: int where "MAGIC_COOKIE = 0xabcddcba"

definition OFFER_TYPE :: int where "OFFER_TYPE = 0x2"
definition REQUEST_TYPE :: int where "REQUEST_TYPE = 0x3"
definition PAYLOAD_TYPE :: int where "PAYLOAD_TYPE = 0x4"

definition TEAM_NAME_LEN :: nat where "TEAM_NAME_LEN = 32"

definition RESULT_NOT_OVER :: int where "RESULT_NOT_OVER = 0x0"
definition RESULT_TIE :: int where "RESULT_TIE = 0x1"
definition RESULT_LOSS :: int where "RESULT_LOSS = 0x2"
definition RESULT_WIN :: int where "RESULT_WIN = 0x3"

definition DECISION_HIT :: bytes where "DECISION_HIT = bytes_lit ''Hittt''"
definition DECISION_STAND :: bytes where "DECISION_STAND = bytes_lit ''Stand''"

subsection \<open>Helpers\<close>

definition encode_team_name :: "str \<Rightarrow> bytes" where
  "encode_team_name name =
     (let raw = utf8_encode name in
      if length raw > TEAM_NAME_LEN then take TEAM_NAME_LEN raw
      else ljust0 raw TEAM_NAME_LEN)"

text \<open>\<^verbatim>\<open>raw.split(b"\x00", 1)[0]\<close> is the part of \<open>raw\<close> before its first zero byte.\<close>

definition decode_team_name :: "bytes \<Rightarrow> str" where
  "decode_team_name raw = utf8_decode (takeWhile (\<lambda>b. b \<noteq> 0) raw)"

subsection \<open>Offer (UDP)\<close>

definition OFFER_FMT :: "fld list" where "OFFER_FMT = [I, B, H, S 32]"
definition OFFER_SIZE :: nat where "OFFER_SIZE = calcsize OFFER_FMT"

definition pack_offer :: "int \<Rightarrow> str \<Rightarrow> error + bytes" where
  "pack_offer tcp_port server_name =
     struct_pack [pack_I MAGIC_COOKIE, pack_B OFFER_TYPE, pack_H tcp_port,
                  pack_s 32 (encode_team_name server_name)]"

definition unpack_offer :: "bytes \<Rightarrow> error + (int \<times> str)" where
  "unpack_offer data =
     (if length data < OFFER_SIZE then Inl (ValueError ''Offer packet too short'')
      else
        (let d = take OFFER_SIZE data;
             cookie = unpack_uint (take 4 d);
             msg_type = unpack_uint (take 1 (drop 4 d));
             tcp_port = unpack_uint (take 2 (drop 5 d));
             raw_name = take 32 (drop 7 d)
         in if cookie \<noteq> MAGIC_COOKIE \<or> msg_type \<noteq> OFFER_TYPE
            then Inl (ValueError ''Invalid offer packet'')
            else Inr (tcp_port, decode_team_name raw_name)))"

subsection \<open>Request (TCP)\<close>

definition REQUEST_FMT :: "fld list" where "REQUEST_FMT = [I, B, B, S 32]"
definition p_REQUEST_SIZE :: nat where "p_REQUEST_SIZE = calcsize REQUEST_FMT"

definition pack_request :: "int \<Rightarrow> str \<Rightarrow> error + bytes" where
  "pack_request rounds client_name =
     struct_pack [pack_I MAGIC_COOKIE, pack_B REQUEST_TYPE, pack_B rounds,
                  pack_s 32 (encode_team_name client_name)]"

definition unpack_request :: "bytes \<Rightarrow> error + (int \<times> str)" where
  "unpack_request data =
     (if length data < p_REQUEST_SIZE then Inl (ValueError ''Request packet too short'')
      else
        (let d = take p_REQUEST_SIZE data;
             cookie = unpack_uint (take 4 d);
             msg_type = unpack_uint (take 1 (drop 4 d));
             rounds = unpack_uint (take 1 (drop 5 d));
             raw_name = take 32 (drop 6 d)
         in if cookie \<noteq> MAGIC_COOKIE \<or> msg_type \<noteq> REQUEST_TYPE
            then Inl (ValueError ''Invalid request packet'')
            else Inr (rounds, decode_team_name raw_name)))"

subsection \<open>Client payload (TCP)\<close>

definition CLIENT_PAYLOAD_FMT :: "fld list" where "CLIENT_PAYLOAD_FMT = [I, B, S 5]"
definition p_CLIENT_PAYLOAD_SIZE :: nat where "p_CLIENT_PAYLOAD_SIZE = calcsize CLIENT_PAYLOAD_FMT"

definition pack_client_payload :: "str \<Rightarrow> error + bytes" where
  "pack_client_payload decision =
     (if lower decision = str_lit ''hit'' then
        struct_pack [pack_I MAGIC_COOKIE, pack_B PAYLOAD_TYPE, pack_s 5 DECISION_HIT]
      else if lower decision = str_lit ''stand'' then
        struct_pack [pack_I MAGIC_COOKIE, pack_B PAYLOAD_TYPE, pack_s 5 DECISION_STAND]
      else Inl (ValueError ''Invalid decision''))"

definition unpack_client_payload :: "bytes \<Rightarrow> error + str" where
  "unpack_client_payload data =
     (if length data < p_CLIENT_PAYLOAD_SIZE then Inl (ValueError ''Client payload too short'')
      else
        (let d = take p_CLIENT_PAYLOAD_SIZE data;
             cookie = unpack_uint (take 4 d);
             msg_type = unpack_uint (take 1 (drop 4 d));
             raw_decision = take 5 (drop 5 d)
         in if cookie \<noteq> MAGIC_COOKIE \<or> msg_type \<noteq> PAYLOAD_TYPE
            then Inl (ValueError ''Invalid client payload'')
            else
              (let decision = rstrip0 raw_decision in
               if decision = DECISION_HIT then Inr (str_lit ''Hit'')
               else if decision = DECISION_STAND then Inr (str_lit ''Stand'')
               else Inl (ValueError ''Unknown decision''))))"

subsection \<open>Server payload (TCP)\<close>

definition SERVER_PAYLOAD_FMT :: "fld list" where "SERVER_PAYLOAD_FMT = [I, B, B, H, B]"
definition p_SERVER_PAYLOAD_SIZE :: nat where "p_SERVER_PAYLOAD_SIZE = calcsize SERVER_PAYLOAD_FMT"

definition pack_server_payload :: "int \<Rightarrow> int \<Rightarrow> int \<Rightarrow> error + bytes" where
  "pack_server_payload result rank suit =
     struct_pack [pack_I MAGIC_COOKIE, pack_B PAYLOAD_TYPE, pack_B result, pack_H rank,
                  pack_B suit]"

definition unpack_server_payload :: "bytes \<Rightarrow> error + (int \<times> int \<times> int)" where
  "unpack_server_payload data =
     (if length data < p_SERVER_PAYLOAD_SIZE then Inl (ValueError ''Server payload too short'')
      else
        (let d = take p_SERVER_PAYLOAD_SIZE data;
             cookie = unpack_uint (take 4 d);
             msg_type = unpack_uint (take 1 (drop 4 d));
             result = unpack_uint (take 1 (drop 5 d));
             rank = unpack_uint (take 2 (drop 6 d));
             suit = unpack_uint (take 1 (drop 8 d))
         in if cookie \<noteq> MAGIC_COOKIE \<or> msg_type \<noteq> PAYLOAD_TYPE
            then Inl (ValueError ''Invalid server payload'')
            else Inr (result, rank, suit)))"

section \<open>server.py\<close>

definition REQUEST_SIZE :: nat where "REQUEST_SIZE = 38"
definition CLIENT_PAYLOAD_SIZE :: nat where "CLIENT_PAYLOAD_SIZE = 10"

text \<open>client.py reads server payloads with its own constant.\<close>

definition SERVER_PAYLOAD_SIZE :: nat where "SERVER_PAYLOAD_SIZE = 9"

subsection \<open>Card and deck logic\<close>

type_synonym card = "int \<times> int"

definition SUITS :: "int list" where "SUITS = [0, 1, 2, 3]"
definition RANKS :: "int list" where "RANKS = [1..13]"

record Deck =
  cards :: "card list"

text \<open>
  \<^verbatim>\<open>random.shuffle\<close> reorders the list in place. The order it produces is the parameter
  \<open>shuffle\<close>; what the library promises is that the result is a permutation of the list.
\<close>

definition Deck_init :: "(card list \<Rightarrow> card list) \<Rightarrow> Deck" where
  "Deck_init shuffle = \<lparr>cards = shuffle [(rank, suit). suit \<leftarrow> SUITS, rank \<leftarrow> RANKS]\<rparr>"

text \<open>\<^verbatim>\<open>self.cards.pop()\<close> removes and returns the last element; on an empty list it raises.\<close>

definition draw :: "Deck \<Rightarrow> error + (card \<times> Deck)" where
  "draw deck =
     (if cards deck = [] then Inl (IndexError ''pop from empty list'')
      else Inr (last (cards deck), deck\<lparr>cards := butlast (cards deck)\<rparr>))"

definition card_value :: "int \<Rightarrow> int" where
  "card_value rank = (if rank = 1 then 11 else if rank \<ge> 11 then 10 else rank)"

definition hand_value :: "card list \<Rightarrow> int" where
  "hand_value hand = sum_list (map (\<lambda>(rank, _). card_value rank) hand)"

subsection \<open>The TCP connection\<close>

text \<open>
  The socket of one session. \<open>inbound\<close> holds the chunks of bytes the peer sends, in the
  order and the pieces in which the network delivers them; when none is left the peer
  has closed the connection. \<open>outbound\<close> is the list of the byte strings handed to
  \<^verbatim>\<open>sendall\<close>, oldest first. Sending is taken to succeed; the 60 second timeout of the
  socket is outside the model.
\<close>

record sock =
  inbound :: "bytes list"
  outbound :: "bytes list"
  closed :: bool

definition recv :: "sock \<Rightarrow> nat \<Rightarrow> bytes \<times> sock" where
  "recv s bufsize =
     (case inbound s of
        [] \<Rightarrow> ([], s)
      | c # cs \<Rightarrow>
          (take bufsize c,
           s\<lparr>inbound := (if bufsize < length c then drop bufsize c # cs else cs)\<rparr>))"

definition sendall :: "sock \<Rightarrow> bytes \<Rightarrow> sock" where
  "sendall s data = s\<lparr>outbound := outbound s @ [data]\<rparr>"

definition close :: "sock \<Rightarrow> sock" where
  "close s = s\<lparr>closed := True\<rparr>"

text \<open>\<^verbatim>\<open>recv_exact\<close> of protocol.py: the loop, with \<open>data\<close> the bytes gathered so far.\<close>

function recv_exact_loop :: "sock \<Rightarrow> nat \<Rightarrow> bytes \<Rightarrow> sock \<times> (error + bytes)" where
  "recv_exact_loop s n data =
     (if length data < n then
        (case recv s (n - length data) of
           (chunk, s') \<Rightarrow>
             if chunk = [] then (s', Inl (ConnectionError ''Socket closed while receiving data''))
             else recv_exact_loop s' n (data @ chunk))
      else (s, Inr data))"
  by pat_completeness auto
termination
  by (relation "measure (\<lambda>(s, n, data). n - length data)") (auto simp: neq_Nil_conv)

declare recv_exact_loop.simps [simp del]

definition recv_exact :: "sock \<Rightarrow> nat \<Rightarrow> sock \<times> (error + bytes)" where
  "recv_exact s n = recv_exact_loop s n []"

text \<open>
  What a successful \<open>recv_exact\<close> does to the socket: it returns exactly the next \<open>n\<close>
  bytes of the inbound stream and leaves the rest.
\<close>

lemma recv_chunk:
  "recv s k = (chunk, s') \<Longrightarrow>
     chunk @ concat (inbound s') = concat (inbound s) \<and> length chunk \<le> k
     \<and> outbound s' = outbound s \<and> closed s' = closed s"
  by (auto simp: recv_def split: list.splits)

lemma recv_exact_loop_ok:
  "recv_exact_loop s n data = (s', Inr d) \<Longrightarrow> length data \<le> n \<Longrightarrow>
     length d = n \<and> d @ concat (inbound s') = data @ concat (inbound s)
     \<and> outbound s' = outbound s \<and> closed s' = closed s"
proof (induction s n data rule: recv_exact_loop.induct)
  case (1 s n data)
  show ?case
  proof (cases "length data < n")
    case False
    with "1.prems" show ?thesis by (simp add: recv_exact_loop.simps [of s n data])
  next
    case True
    obtain chunk s1 where r: "recv s (n - length data) = (chunk, s1)" by force
    from "1.prems"(1) True r have ne: "chunk \<noteq> []" and
      rec: "recv_exact_loop s1 n (data @ chunk) = (s', Inr d)"
      by (auto simp: recv_exact_loop.simps [of s n data] split: if_splits)
    from recv_chunk [OF r] True have len: "length (data @ chunk) \<le> n" by auto
    from "1.IH" [OF True r [symmetric] ne rec len] recv_chunk [OF r]
    show ?thesis by simp
  qed
qed

lemma recv_exact_ok:
  "recv_exact s n = (s', Inr d) \<Longrightarrow>
     length d = n \<and> d @ concat (inbound s') = concat (inbound s)
     \<and> outbound s' = outbound s \<and> closed s' = closed s"
  using recv_exact_loop_ok [of s n "[]" s' d] by (simp add: recv_exact_def)

text \<open>\<^verbatim>\<open>client_sock.sendall(pack_server_payload(result, rank, suit))\<close>\<close>

definition send_server_payload :: "sock \<Rightarrow> int \<Rightarrow> int \<Rightarrow> int \<Rightarrow> sock \<times> (error + unit)" where
  "send_server_payload s result rank suit =
     (case pack_server_payload result rank suit of
        Inl e \<Rightarrow> (s, Inl e)
      | Inr m \<Rightarrow> (sendall s m, Inr ()))"

subsection \<open>One client session\<close>

lemma draw_shorter: "draw deck = Inr (drawn, deck') \<Longrightarrow> length (cards deck') < length (cards deck)"
  by (auto simp: draw_def split: if_splits)

text \<open>
  The initial cards: \<^verbatim>\<open>for rank, suit in player_hand: client_sock.sendall(...)\<close>.
\<close>

fun send_cards :: "sock \<Rightarrow> card list \<Rightarrow> sock \<times> (error + unit)" where
  "send_cards s [] = (s, Inr ())"
| "send_cards s ((rank, suit) # hand) =
     (case send_server_payload s RESULT_NOT_OVER rank suit of
        (s1, Inl e) \<Rightarrow> (s1, Inl e)
      | (s1, Inr _) \<Rightarrow> send_cards s1 hand)"

text \<open>
  The player turn, \<^verbatim>\<open>while True:\<close> with \<^verbatim>\<open>player_bust = False\<close> before it. The loop
  returns the deck, the player's hand and \<^verbatim>\<open>player_bust\<close>. Any decision other than
  \<^verbatim>\<open>"Hit"\<close> takes the \<^verbatim>\<open>else\<close> branch.
\<close>

function player_turn :: "sock \<Rightarrow> Deck \<Rightarrow> card list \<Rightarrow> sock \<times> (error + (Deck \<times> card list \<times> bool))" where
  "player_turn s deck player_hand =
     (case recv_exact s CLIENT_PAYLOAD_SIZE of
        (s1, Inl e) \<Rightarrow> (s1, Inl e)
      | (s1, Inr data) \<Rightarrow>
          (case unpack_client_payload data of
             Inl e \<Rightarrow> (s1, Inl e)
           | Inr decision \<Rightarrow>
               if decision = str_lit ''Hit'' then
                 (case draw deck of
                    Inl e \<Rightarrow> (s1, Inl e)
                  | Inr (drawn, deck1) \<Rightarrow>
                      (let player_hand1 = player_hand @ [drawn];
                           total = hand_value player_hand1
                       in case send_server_payload s1 RESULT_NOT_OVER (fst drawn) (snd drawn) of
                            (s2, Inl e) \<Rightarrow> (s2, Inl e)
                          | (s2, Inr _) \<Rightarrow>
                              if total > 21 then (s2, Inr (deck1, player_hand1, True))
                              else player_turn s2 deck1 player_hand1))
               else (s1, Inr (deck, player_hand, False))))"
  by pat_completeness auto
termination
  by (relation "measure (\<lambda>(s, deck, player_hand). length (cards deck))")
     (auto dest: draw_shorter)

declare player_turn.simps [simp del]

text \<open>The dealer's draws: \<^verbatim>\<open>while hand_value(dealer_hand) < 17:\<close>.\<close>

function dealer_turn :: "sock \<Rightarrow> Deck \<Rightarrow> card list \<Rightarrow> sock \<times> (error + (Deck \<times> card list))" where
  "dealer_turn s deck dealer_hand =
     (if hand_value dealer_hand < 17 then
        (case draw deck of
           Inl e \<Rightarrow> (s, Inl e)
         | Inr (drawn, deck1) \<Rightarrow>
             (case send_server_payload s RESULT_NOT_OVER (fst drawn) (snd drawn) of
                (s1, Inl e) \<Rightarrow> (s1, Inl e)
              | (s1, Inr _) \<Rightarrow> dealer_turn s1 deck1 (dealer_hand @ [drawn])))
      else (s, Inr (deck, dealer_hand)))"
  by pat_completeness auto
termination
  by (relation "measure (\<lambda>(s, deck, dealer_hand). length (cards deck))")
     (auto dest: draw_shorter)

declare dealer_turn.simps [simp del]

text \<open>The four draws that open a round: two cards for the player, then two for the dealer.\<close>

definition deal :: "Deck \<Rightarrow> error + (card list \<times> card list \<times> Deck)" where
  "deal deck =
     (case draw deck of Inl e \<Rightarrow> Inl e | Inr (p1, deck1) \<Rightarrow>
      case draw deck1 of Inl e \<Rightarrow> Inl e | Inr (p2, deck2) \<Rightarrow>
      case draw deck2 of Inl e \<Rightarrow> Inl e | Inr (d1, deck3) \<Rightarrow>
      case draw deck3 of Inl e \<Rightarrow> Inl e | Inr (d2, deck4) \<Rightarrow>
        Inr ([p1, p2], [d1, d2], deck4))"

text \<open>The \<^verbatim>\<open>if\<close> chain under "Decide result".\<close>

definition decide_result :: "bool \<Rightarrow> int \<Rightarrow> int \<Rightarrow> int" where
  "decide_result player_bust dealer_total player_total =
     (if player_bust then RESULT_LOSS
      else if dealer_total > 21 then RESULT_WIN
      else if dealer_total > player_total then RESULT_LOSS
      else if dealer_total < player_total then RESULT_WIN
      else RESULT_TIE)"

text \<open>
  The local variables of a round when it ends: the two hands, the bust flag, the
  result code that was sent and the deck that is left.
\<close>

record round =
  player_hand :: "card list"
  dealer_hand :: "card list"
  player_bust :: bool
  result :: int
  deck :: Deck

text \<open>The body of the \<^verbatim>\<open>for r in range(1, rounds + 1)\<close> loop, on the deck \<^verbatim>\<open>Deck()\<close> built.\<close>

definition play_round :: "sock \<Rightarrow> Deck \<Rightarrow> sock \<times> (error + round)" where
  "play_round s deck0 =
     (case deal deck0 of
        Inl e \<Rightarrow> (s, Inl e)
      | Inr (player_hand0, dealer_hand0, deck1) \<Rightarrow>
     (case send_cards s player_hand0 of
        (s1, Inl e) \<Rightarrow> (s1, Inl e)
      | (s1, Inr _) \<Rightarrow>
     (case send_server_payload s1 RESULT_NOT_OVER (fst (dealer_hand0 ! 0)) (snd (dealer_hand0 ! 0)) of
        (s2, Inl e) \<Rightarrow> (s2, Inl e)
      | (s2, Inr _) \<Rightarrow>
     (case player_turn s2 deck1 player_hand0 of
        (s3, Inl e) \<Rightarrow> (s3, Inl e)
      | (s3, Inr (deck2, player_hand1, bust)) \<Rightarrow>
     (let hidden = dealer_hand0 ! 1 in
      case send_server_payload s3 RESULT_NOT_OVER (fst hidden) (snd hidden) of
        (s4, Inl e) \<Rightarrow> (s4, Inl e)
      | (s4, Inr _) \<Rightarrow>
     (case (if \<not> bust then dealer_turn s4 deck2 dealer_hand0
            else (s4, Inr (deck2, dealer_hand0))) of
        (s5, Inl e) \<Rightarrow> (s5, Inl e)
      | (s5, Inr (deck3, dealer_hand1)) \<Rightarrow>
     (let dealer_total = hand_value dealer_hand1;
          player_total = hand_value player_hand1;
          res = decide_result bust dealer_total player_total
      in case send_server_payload s5 res 0 0 of
           (s6, Inl e) \<Rightarrow> (s6, Inl e)
         | (s6, Inr _) \<Rightarrow>
             (s6, Inr \<lparr>player_hand = player_hand1, dealer_hand = dealer_hand1,
                       player_bust = bust, result = res, deck = deck3\<rparr>))))))))"

text \<open>
  The loop over the rounds. \<open>r\<close> is the number of the round and \<open>n\<close> the number of
  rounds still to play; \<open>shuffle r\<close> is the order \<^verbatim>\<open>random.shuffle\<close> gives the deck of
  round \<open>r\<close>. An exception in a round ends the loop.
\<close>

fun rounds_loop ::
  "(nat \<Rightarrow> card list \<Rightarrow> card list) \<Rightarrow> sock \<Rightarrow> nat \<Rightarrow> nat \<Rightarrow> sock \<times> (error + round list)" where
  "rounds_loop shuffle s r 0 = (s, Inr [])"
| "rounds_loop shuffle s r (Suc n) =
     (case play_round s (Deck_init (shuffle r)) of
        (s1, Inl e) \<Rightarrow> (s1, Inl e)
      | (s1, Inr rd) \<Rightarrow>
          (case rounds_loop shuffle s1 (r + 1) n of
             (s2, Inl e) \<Rightarrow> (s2, Inl e)
           | (s2, Inr rds) \<Rightarrow> (s2, Inr (rd # rds))))"

text \<open>
  \<^verbatim>\<open>handle_client\<close>: the request, the rounds, and \<^verbatim>\<open>finally: client_sock.close()\<close>. It
  returns the socket as it leaves it and the rounds played, or the exception that
  ended the session.
\<close>

definition handle_client ::
  "(nat \<Rightarrow> card list \<Rightarrow> card list) \<Rightarrow> sock \<Rightarrow> sock \<times> (error + round list)" where
  "handle_client shuffle client_sock =
     (case
        (case recv_exact client_sock REQUEST_SIZE of
           (s1, Inl e) \<Rightarrow> (s1, Inl e)
         | (s1, Inr data) \<Rightarrow>
             (case unpack_request data of
                Inl e \<Rightarrow> (s1, Inl e)
              | Inr (rounds, client_name) \<Rightarrow> rounds_loop shuffle s1 1 (nat rounds)))
      of (s2, r) \<Rightarrow> (close s2, r))"

section \<open>client.py\<close>

text \<open>
  client.py defines \<open>card_value\<close> and \<open>hand_value\<close> again, with the text of server.py;
  the definitions above stand for both. What follows is the part of \<^verbatim>\<open>main\<close> that plays
  one round over the TCP connection: the body of its \<^verbatim>\<open>for r in range(1, rounds + 1)\<close>
  loop. The lines the user types are the list \<open>stdin\<close>; \<^verbatim>\<open>input\<close> takes the next one and
  raises \<^verbatim>\<open>EOFError\<close> when none is left. What the client prints is left out.
\<close>

definition input_line :: "str list \<Rightarrow> error + (str \<times> str list)" where
  "input_line stdin =
     (case stdin of
        [] \<Rightarrow> Inl (EOFError ''EOF when reading a line'')
      | line # rest \<Rightarrow> Inr (line, rest))"

text \<open>
  \<^verbatim>\<open>str.strip()\<close> removes the white space at both ends; the white-space characters of
  Python 3 are those below.
\<close>

definition isspace :: "nat \<Rightarrow> bool" where
  "isspace c =
     ((0x09 \<le> c \<and> c \<le> 0x0D) \<or> (0x1C \<le> c \<and> c \<le> 0x20) \<or> c = 0x85 \<or> c = 0xA0
      \<or> c = 0x1680 \<or> (0x2000 \<le> c \<and> c \<le> 0x200A) \<or> c = 0x2028 \<or> c = 0x2029
      \<or> c = 0x202F \<or> c = 0x205F \<or> c = 0x3000)"

definition strip :: "str \<Rightarrow> str" where
  "strip s = rev (dropWhile isspace (rev (dropWhile isspace s)))"

text \<open>\<^verbatim>\<open>unpack_server_payload(recv_exact(tcp_sock, SERVER_PAYLOAD_SIZE))\<close>\<close>

definition recv_server_payload :: "sock \<Rightarrow> sock \<times> (error + (int \<times> int \<times> int))" where
  "recv_server_payload s =
     (case recv_exact s SERVER_PAYLOAD_SIZE of
        (s1, Inl e) \<Rightarrow> (s1, Inl e)
      | (s1, Inr data) \<Rightarrow> (s1, unpack_server_payload data))"

lemma recv_server_payload_Inr:
  "recv_server_payload s = (s', Inr ev) \<Longrightarrow>
     \<exists>data. length data = 9 \<and> unpack_server_payload data = Inr ev
        \<and> data @ concat (inbound s') = concat (inbound s)
        \<and> outbound s' = outbound s \<and> closed s' = closed s"
  by (auto simp: recv_server_payload_def SERVER_PAYLOAD_SIZE_def split: prod.splits sum.splits
      dest!: recv_exact_ok)

lemma recv_server_payload_less:
  "recv_server_payload s = (s', Inr ev) \<Longrightarrow>
     length (concat (inbound s')) < length (concat (inbound s))"
proof -
  assume "recv_server_payload s = (s', Inr ev)"
  from recv_server_payload_Inr [OF this] obtain data where
    "length data = 9" "data @ concat (inbound s') = concat (inbound s)"
    by blast
  then have "length (concat (inbound s)) = 9 + length (concat (inbound s'))"
    by (metis length_append)
  then show ?thesis by simp
qed

text \<open>The initial cards: \<^verbatim>\<open>for _ in range(2):\<close> with the hand the cards are appended to.\<close>

fun recv_cards :: "nat \<Rightarrow> sock \<Rightarrow> card list \<Rightarrow> sock \<times> (error + card list)" where
  "recv_cards 0 s hand = (s, Inr hand)"
| "recv_cards (Suc n) s hand =
     (case recv_server_payload s of
        (s1, Inl e) \<Rightarrow> (s1, Inl e)
      | (s1, Inr (_, rank, suit)) \<Rightarrow> recv_cards n s1 (hand @ [(rank, suit)]))"

text \<open>
  The player turn, \<^verbatim>\<open>while True:\<close>. It returns the player's hand and \<^verbatim>\<open>player_bust\<close>. A
  line that is neither "hit" nor "stand" is asked for again; after a hit, an event that
  is not a not-over event changes nothing and the loop goes on.
\<close>

function client_player_turn ::
  "sock \<Rightarrow> str list \<Rightarrow> card list \<Rightarrow> sock \<times> str list \<times> (error + (card list \<times> bool))" where
  "client_player_turn s stdin hand =
     (case input_line stdin of
        Inl e \<Rightarrow> (s, stdin, Inl e)
      | Inr (line, stdin1) \<Rightarrow>
          (let decision = lower (strip line) in
           if decision \<noteq> str_lit ''hit'' \<and> decision \<noteq> str_lit ''stand''
           then client_player_turn s stdin1 hand
           else
             (case pack_client_payload decision of
                Inl e \<Rightarrow> (s, stdin1, Inl e)
              | Inr m \<Rightarrow>
                  (let s1 = sendall s m in
                   if decision = str_lit ''stand'' then (s1, stdin1, Inr (hand, False))
                   else
                     (case recv_server_payload s1 of
                        (s2, Inl e) \<Rightarrow> (s2, stdin1, Inl e)
                      | (s2, Inr (res, rank, suit)) \<Rightarrow>
                          if res = RESULT_NOT_OVER then
                            (let hand1 = hand @ [(rank, suit)];
                                 total = hand_value hand1
                             in if total > 21 then (s2, stdin1, Inr (hand1, True))
                                else client_player_turn s2 stdin1 hand1)
                          else client_player_turn s2 stdin1 hand)))))"
  by pat_completeness auto
termination
  by (relation "measure (\<lambda>(s, stdin, hand). length stdin)")
     (auto simp: input_line_def split: list.splits)

declare client_player_turn.simps [simp del]

text \<open>
  The dealer stream, \<^verbatim>\<open>while True:\<close>. Every event that is not a win, a loss or a tie is
  taken as a dealer card. The loop returns the dealer's hand and the result code.
\<close>

function client_dealer_stream :: "sock \<Rightarrow> card list \<Rightarrow> sock \<times> (error + (card list \<times> int))" where
  "client_dealer_stream s hand =
     (case recv_server_payload s of
        (s1, Inl e) \<Rightarrow> (s1, Inl e)
      | (s1, Inr (res, rank, suit)) \<Rightarrow>
          if res = RESULT_WIN \<or> res = RESULT_LOSS \<or> res = RESULT_TIE
          then (s1, Inr (hand, res))
          else client_dealer_stream s1 (hand @ [(rank, suit)]))"
  by pat_completeness auto
termination
  by (relation "measure (\<lambda>(s, hand). length (concat (inbound s)))")
     (auto dest: recv_server_payload_less [OF sym])

declare client_dealer_stream.simps [simp del]

text \<open>
  The counters \<^verbatim>\<open>wins\<close>, \<^verbatim>\<open>losses\<close> and \<^verbatim>\<open>ties\<close>, and the variables of a round when it
  ends (the names of server.py with a suffix).
\<close>

record stats =
  wins :: int
  losses :: int
  ties :: int

record client_round =
  player_hand_c :: "card list"
  dealer_hand_c :: "card list"
  player_bust_c :: bool
  result_c :: int
  stats_c :: stats

definition play_client_round ::
  "sock \<Rightarrow> str list \<Rightarrow> stats \<Rightarrow> sock \<times> str list \<times> (error + client_round)" where
  "play_client_round s stdin st =
     (case recv_cards 2 s [] of
        (s1, Inl e) \<Rightarrow> (s1, stdin, Inl e)
      | (s1, Inr hand0) \<Rightarrow>
     (case recv_server_payload s1 of
        (s2, Inl e) \<Rightarrow> (s2, stdin, Inl e)
      | (s2, Inr (_, rank, suit)) \<Rightarrow>
     (case client_player_turn s2 stdin hand0 of
        (s3, stdin1, Inl e) \<Rightarrow> (s3, stdin1, Inl e)
      | (s3, stdin1, Inr (hand1, bust)) \<Rightarrow>
     (let st1 = (if bust then st\<lparr>losses := losses st + 1\<rparr> else st) in
      case client_dealer_stream s3 [(rank, suit)] of
        (s4, Inl e) \<Rightarrow> (s4, stdin1, Inl e)
      | (s4, Inr (dealer1, res)) \<Rightarrow>
          (let st2 =
             (if res = RESULT_WIN then st1\<lparr>wins := wins st1 + 1\<rparr>
              else if res = RESULT_LOSS then
                (if \<not> bust then st1\<lparr>losses := losses st1 + 1\<rparr> else st1)
              else st1\<lparr>ties := ties st1 + 1\<rparr>)
           in (s4, stdin1,
               Inr \<lparr>player_hand_c = hand1, dealer_hand_c = dealer1, player_bust_c = bust,
                    result_c = res, stats_c = st2\<rparr>))))))"

section \<open>Notions used in the statements\<close>

text \<open>
  A buffer has a valid header for type tag \<open>t\<close> when its first four bytes are the magic
  cookie \<open>0xabcddcba\<close> in network byte order and its fifth byte is \<open>t\<close>.
\<close>

definition header_ok :: "bytes \<Rightarrow> byte \<Rightarrow> bool" where
  "header_ok data t = (take 4 data = [0xab, 0xcd, 0xdc, 0xba] \<and> data ! 4 = t)"

text \<open>
  The code points that have a UTF-8 encoding: \<open>0..0x10FFFF\<close> without the surrogates
  \<open>0xD800..0xDFFF\<close>. A Python string may hold a lone surrogate; it has no encoding.
\<close>

definition scalar :: "nat \<Rightarrow> bool" where
  "scalar c = (c < 0xD800 \<or> (0xE000 \<le> c \<and> c < 0x110000))"

text \<open>
  The 52 cards in the order \<^verbatim>\<open>Deck.__init__\<close> lists them before shuffling, and \<open>n\<close>
  draws in a row, giving the cards drawn in the order of the draws and the deck left.
\<close>

definition fresh_cards :: "card list" where
  "fresh_cards = [(rank, suit). suit \<leftarrow> SUITS, rank \<leftarrow> RANKS]"

fun draw_n :: "nat \<Rightarrow> Deck \<Rightarrow> error + (card list \<times> Deck)" where
  "draw_n 0 d = Inr ([], d)"
| "draw_n (Suc n) d =
     (case draw d of
        Inl e \<Rightarrow> Inl e
      | Inr (c, d1) \<Rightarrow>
          (case draw_n n d1 of Inl e \<Rightarrow> Inl e | Inr (cs, d2) \<Rightarrow> Inr (c # cs, d2)))"

text \<open>
  \<open>card_events cs ms\<close>: the byte strings \<open>ms\<close> are the not-over events of the cards
  \<open>cs\<close>, one for each card and in the same order.
\<close>

definition card_events :: "card list \<Rightarrow> bytes list \<Rightarrow> bool" where
  "card_events cs ms =
     list_all2 (\<lambda>c m. pack_server_payload RESULT_NOT_OVER (fst c) (snd c) = Inr m) cs ms"

subsection \<open>Two example rounds\<close>

text \<open>
  In the first round the player holds 20 and stands, and the dealer draws from 16 to 18.
  In the second the player hits on 20, draws a five and busts. Each is given by the
  socket and the deck it starts from, the socket it ends with and its final variables.
\<close>

definition stand_msg :: bytes where
  "stand_msg = [0xab, 0xcd, 0xdc, 0xba, 4, 0x53, 0x74, 0x61, 0x6e, 0x64]"




definition stand_round_sock' :: sock where
  "stand_round_sock' =
     \<lparr>inbound = [],
      outbound = [[0xab, 0xcd, 0xdc, 0xba, 4, 0, 0, 10, 1],
                  [0xab, 0xcd, 0xdc, 0xba, 4, 0, 0, 10, 0],
                  [0xab, 0xcd, 0xdc, 0xba, 4, 0, 0, 7, 2],
                  [0xab, 0xcd, 0xdc, 0xba, 4, 0, 0, 9, 1],
                  [0xab, 0xcd, 0xdc, 0xba, 4, 0, 0, 2, 0],
                  [0xab, 0xcd, 0xdc, 0xba, 4, 3, 0, 0, 0]],
      closed = False\<rparr>"






subsection \<open>Messages read from a connection\<close>

text \<open>
  \<open>decisions ds\<close>: every byte string of \<open>ds\<close> has 10 bytes and decodes as a client
  decision. \<open>events evs\<close>: every byte string of \<open>evs\<close> has 9 bytes and decodes as a
  server event. \<open>decisions_read rd\<close> is the number of decisions the round \<open>rd\<close> asked
  for: one for each card the player drew, and one more for the stand unless the player
  busted.
\<close>

definition decisions :: "bytes list \<Rightarrow> bool" where
  "decisions ds = list_all (\<lambda>d. length d = 10 \<and> (\<exists>x. unpack_client_payload d = Inr x)) ds"

definition decisions_read :: "round \<Rightarrow> nat" where
  "decisions_read rd = length (player_hand rd) - 2 + (if player_bust rd then 0 else 1)"

definition events :: "bytes list \<Rightarrow> bool" where
  "events evs = list_all (\<lambda>e. length e = 9 \<and> (\<exists>x. unpack_server_payload e = Inr x)) evs"

subsection \<open>An example session and an example client round\<close>

text \<open>
  A session of one round on an unshuffled deck: the request and the start of the
  decision arrive in one chunk, the rest of the decision in a second one. The player
  holds King and Queen and stands, the dealer holds Jack and ten: a tie. The client
  round reads the events of the first example round above and answers " Stand".
\<close>

definition session_example_sock :: sock where
  "session_example_sock =
     \<lparr>inbound = [([0xab, 0xcd, 0xdc, 0xba, 3, 1] @ replicate 32 0) @ [0xab, 0xcd, 0xdc, 0xba],
                 [4, 0x53, 0x74, 0x61, 0x6e, 0x64]],
      outbound = [], closed = False\<rparr>"

definition session_example_sock' :: sock where
  "session_example_sock' =
     \<lparr>inbound = [],
      outbound = [[0xab, 0xcd, 0xdc, 0xba, 4, 0, 0, 13, 3],
                  [0xab, 0xcd, 0xdc, 0xba, 4, 0, 0, 12, 3],
                  [0xab, 0xcd, 0xdc, 0xba, 4, 0, 0, 11, 3],
                  [0xab, 0xcd, 0xdc, 0xba, 4, 0, 0, 10, 3],
                  [0xab, 0xcd, 0xdc, 0xba, 4, 1, 0, 0, 0]],
      closed = True\<rparr>"

definition session_example_round :: round where
  "session_example_round =
     \<lparr>player_hand = [(13, 3), (12, 3)], dealer_hand = [(11, 3), (10, 3)],
      player_bust = False, result = 1, deck = \<lparr>cards = take 48 fresh_cards\<rparr>\<rparr>"

definition client_example_sock :: sock where
  "client_example_sock = \<lparr>inbound = outbound stand_round_sock', outbound = [], closed = False\<rparr>"

definition client_example_sock' :: sock where
  "client_example_sock' = \<lparr>inbound = [], outbound = [stand_msg], closed = False\<rparr>"

definition client_example_round :: client_round where
  "client_example_round =
     \<lparr>player_hand_c = [(10, 1), (10, 0)], dealer_hand_c = [(7, 2), (9, 1), (2, 0)],
      player_bust_c = False, result_c = 3, stats_c = \<lparr>wins = 1, losses = 0, ties = 0\<rparr>\<rparr>"

section \<open>The packet codec\<close>

subsection \<open>Sizes and header fields\<close>

lemma sizes: "OFFER_SIZE = 39" "p_REQUEST_SIZE = 38" "p_CLIENT_PAYLOAD_SIZE = 10" "p_SERVER_PAYLOAD_SIZE = 9"
  by (simp_all add: OFFER_SIZE_def p_REQUEST_SIZE_def p_CLIENT_PAYLOAD_SIZE_def p_SERVER_PAYLOAD_SIZE_def
      OFFER_FMT_def REQUEST_FMT_def CLIENT_PAYLOAD_FMT_def SERVER_PAYLOAD_FMT_def calcsize_def)

lemma uint_byte_bounds: "0 \<le> uint (a :: byte)" "uint (a :: byte) < 256"
  using uint_lt2p [of a] by simp_all

lemma unpack_uint1: "unpack_uint [a] = uint a"
  by (simp add: unpack_uint_def)

lemma unpack_uint2: "unpack_uint [a, b] = uint a * 256 + uint b"
  by (simp add: unpack_uint_def)

lemma unpack_uint4: "unpack_uint [a, b, c, d] = ((uint a * 256 + uint b) * 256 + uint c) * 256 + uint d"
  by (simp add: unpack_uint_def)

lemma base256_split:
  "0 \<le> r \<Longrightarrow> r < 256 \<Longrightarrow> (q * 256 + r = (n::int)) \<longleftrightarrow> (q = n div 256 \<and> r = n mod 256)"
  by auto

lemma magic_iff:
  "unpack_uint [a, b, c, d] = MAGIC_COOKIE \<longleftrightarrow> a = 0xab \<and> b = 0xcd \<and> c = 0xdc \<and> d = 0xba"
  unfolding unpack_uint4 MAGIC_COOKIE_def
  apply (subst base256_split [OF uint_byte_bounds])
  apply (subst base256_split [OF uint_byte_bounds])
  apply (subst base256_split [OF uint_byte_bounds])
  apply (simp add: word_uint_eq_iff)
  done

lemma len_ge5: "4 < length d \<Longrightarrow> \<exists>a b c e t r. d = a # b # c # e # t # r"
  by (auto simp: numeral_eq_Suc Suc_le_length_iff less_eq_Suc_le)

lemma header_check:
  assumes "4 < length d" "uint t = T"
  shows "(unpack_uint (take 4 d) \<noteq> MAGIC_COOKIE \<or> unpack_uint (take 1 (drop 4 d)) \<noteq> T)
         \<longleftrightarrow> \<not> header_ok d t"
proof -
  obtain a b c e t' r where d: "d = a # b # c # e # t' # r"
    using len_ge5 [OF assms(1)] by blast
  show ?thesis
    using assms(2) by (auto simp: d header_ok_def magic_iff unpack_uint1 word_uint_eq_iff)
qed


lemma header_ok_take: "4 < n \<Longrightarrow> header_ok (take n data) t = header_ok data t"
  by (simp add: header_ok_def)

lemma field1: "n < length d \<Longrightarrow> unpack_uint (take (Suc 0) (drop n d)) = uint (d ! n)"
  by (subst Cons_nth_drop_Suc [symmetric]) (simp_all add: unpack_uint1)

lemma field2:
  "Suc n < length d \<Longrightarrow> unpack_uint (take 2 (drop n d)) = uint (d ! n) * 256 + uint (d ! Suc n)"
  apply (subst Cons_nth_drop_Suc [symmetric], simp)
  apply (subst Cons_nth_drop_Suc [symmetric], simp)
  apply (simp add: unpack_uint2 numeral_2_eq_2)
  done

lemma unpack_request_eq:
  "unpack_request data =
     (if length data < 38 then Inl (ValueError ''Request packet too short'')
      else if \<not> header_ok data 3 then Inl (ValueError ''Invalid request packet'')
      else Inr (uint (data ! 5), decode_team_name (take 32 (drop 6 data))))"
proof (cases "length data < 38")
  case True
  then show ?thesis by (simp add: unpack_request_def sizes)
next
  case False
  then have hc: "(unpack_uint (take 4 (take 38 data)) \<noteq> MAGIC_COOKIE \<or>
        unpack_uint (take 1 (drop 4 (take 38 data))) \<noteq> REQUEST_TYPE) \<longleftrightarrow> \<not> header_ok data 3"
    by (subst header_check [where t = 3]) (simp_all add: REQUEST_TYPE_def header_ok_take)
  from False have f: "unpack_uint (take (Suc 0) (drop 5 (take 38 data))) = uint (data ! 5)"
    by (subst field1) simp_all
  from False have n: "take 32 (drop 6 (take 38 data)) = take 32 (drop 6 data)"
    by (simp add: drop_take)
  show ?thesis
    using False hc f n by (simp add: unpack_request_def sizes Let_def del: take_take drop_take)
qed


lemma unpack_offer_eq:
  "unpack_offer data =
     (if length data < 39 then Inl (ValueError ''Offer packet too short'')
      else if \<not> header_ok data 2 then Inl (ValueError ''Invalid offer packet'')
      else Inr (uint (data ! 5) * 256 + uint (data ! 6), decode_team_name (take 32 (drop 7 data))))"
proof (cases "length data < 39")
  case True
  then show ?thesis by (simp add: unpack_offer_def sizes)
next
  case False
  then have hc: "(unpack_uint (take 4 (take 39 data)) \<noteq> MAGIC_COOKIE \<or>
        unpack_uint (take 1 (drop 4 (take 39 data))) \<noteq> OFFER_TYPE) \<longleftrightarrow> \<not> header_ok data 2"
    by (subst header_check [where t = 2]) (simp_all add: OFFER_TYPE_def header_ok_take)
  from False have f: "unpack_uint (take 2 (drop 5 (take 39 data))) = uint (data ! 5) * 256 + uint (data ! 6)"
    by (subst field2) simp_all
  from False have n: "take 32 (drop 7 (take 39 data)) = take 32 (drop 7 data)"
    by (simp add: drop_take)
  show ?thesis
    using False hc f n by (simp add: unpack_offer_def sizes Let_def del: take_take drop_take)
qed

lemma unpack_server_payload_eq:
  "unpack_server_payload data =
     (if length data < 9 then Inl (ValueError ''Server payload too short'')
      else if \<not> header_ok data 4 then Inl (ValueError ''Invalid server payload'')
      else Inr (uint (data ! 5), uint (data ! 6) * 256 + uint (data ! 7), uint (data ! 8)))"
proof (cases "length data < 9")
  case True
  then show ?thesis by (simp add: unpack_server_payload_def sizes)
next
  case False
  then have hc: "(unpack_uint (take 4 (take 9 data)) \<noteq> MAGIC_COOKIE \<or>
        unpack_uint (take 1 (drop 4 (take 9 data))) \<noteq> PAYLOAD_TYPE) \<longleftrightarrow> \<not> header_ok data 4"
    by (subst header_check [where t = 4]) (simp_all add: PAYLOAD_TYPE_def header_ok_take)
  from False have f1: "unpack_uint (take (Suc 0) (drop 5 (take 9 data))) = uint (data ! 5)"
    by (subst field1) simp_all
  from False have f2: "unpack_uint (take 2 (drop 6 (take 9 data))) = uint (data ! 6) * 256 + uint (data ! 7)"
    by (subst field2) simp_all
  from False have f3: "unpack_uint (take (Suc 0) (drop 8 (take 9 data))) = uint (data ! 8)"
    by (subst field1) simp_all
  show ?thesis
    using False hc f1 f2 f3
    by (simp add: unpack_server_payload_def sizes Let_def del: take_take drop_take)
qed

lemma unpack_client_payload_eq:
  "unpack_client_payload data =
     (if length data < 10 then Inl (ValueError ''Client payload too short'')
      else if \<not> header_ok data 4 then Inl (ValueError ''Invalid client payload'')
      else if rstrip0 (take 5 (drop 5 data)) = DECISION_HIT then Inr (str_lit ''Hit'')
      else if rstrip0 (take 5 (drop 5 data)) = DECISION_STAND then Inr (str_lit ''Stand'')
      else Inl (ValueError ''Unknown decision''))"
proof (cases "length data < 10")
  case True
  then show ?thesis by (simp add: unpack_client_payload_def sizes)
next
  case False
  then have hc: "(unpack_uint (take 4 (take 10 data)) \<noteq> MAGIC_COOKIE \<or>
        unpack_uint (take 1 (drop 4 (take 10 data))) \<noteq> PAYLOAD_TYPE) \<longleftrightarrow> \<not> header_ok data 4"
    by (subst header_check [where t = 4]) (simp_all add: PAYLOAD_TYPE_def header_ok_take)
  from False have n: "take 5 (drop 5 (take 10 data)) = take 5 (drop 5 data)"
    by (simp add: drop_take)
  show ?thesis
    using False hc n
    by (simp add: unpack_client_payload_def sizes Let_def del: take_take drop_take)
qed


subsection \<open>The decision token\<close>

lemma rstrip0_len_eq: "length (rstrip0 xs) = length xs \<Longrightarrow> rstrip0 xs = xs"
proof -
  assume a: "length (rstrip0 xs) = length xs"
  have "length (takeWhile (\<lambda>b. b = 0) (rev xs)) + length (dropWhile (\<lambda>b. b = 0) (rev xs)) = length (rev xs)"
    by (metis length_append takeWhile_dropWhile_id)
  with a have "takeWhile (\<lambda>b. b = 0) (rev xs) = []" by (simp add: rstrip0_def)
  then have "dropWhile (\<lambda>b. b = 0) (rev xs) = rev xs"
    by (metis append_Nil takeWhile_dropWhile_id)
  then show ?thesis by (simp add: rstrip0_def)
qed

lemma rstrip0_token:
  assumes "length tok = length t" "rstrip0 t = t"
  shows "rstrip0 tok = t \<longleftrightarrow> tok = t"
  using assms rstrip0_len_eq [of tok] by auto

lemma rstrip0_hit: "rstrip0 DECISION_HIT = DECISION_HIT"
  by (simp add: rstrip0_def DECISION_HIT_def bytes_lit_def)

lemma rstrip0_stand: "rstrip0 DECISION_STAND = DECISION_STAND"
  by (simp add: rstrip0_def DECISION_STAND_def bytes_lit_def)

text \<open>
  Claim C4. Decoding a client decision message of at least ten bytes whose magic cookie
  and type tag are valid succeeds for exactly two values of the five-byte token:
  \<^verbatim>\<open>b"Hittt"\<close> gives \<^verbatim>\<open>"Hit"\<close> and \<^verbatim>\<open>b"Stand"\<close> gives \<^verbatim>\<open>"Stand"\<close>. Every other token,
  the all-zero one included, raises \<^verbatim>\<open>ValueError("Unknown decision")\<close>; there is no
  default decision.
\<close>

theorem C4_decision_tokens:
  assumes "10 \<le> length data" and "header_ok data 4"
  shows "unpack_client_payload data =
           (if take 5 (drop 5 data) = bytes_lit ''Hittt'' then Inr (str_lit ''Hit'')
            else if take 5 (drop 5 data) = bytes_lit ''Stand'' then Inr (str_lit ''Stand'')
            else Inl (ValueError ''Unknown decision''))
         \<and> bytes_lit ''Hittt'' \<noteq> bytes_lit ''Stand''
         \<and> length (bytes_lit ''Hittt'') = 5 \<and> length (bytes_lit ''Stand'') = 5
         \<and> str_lit ''Hit'' \<noteq> str_lit ''Stand''
         \<and> replicate 5 0 \<noteq> bytes_lit ''Hittt'' \<and> replicate 5 0 \<noteq> bytes_lit ''Stand''"
proof -
  let ?tok = "take 5 (drop 5 data)"
  have len: "length ?tok = 5" using assms(1) by simp
  have h: "rstrip0 ?tok = DECISION_HIT \<longleftrightarrow> ?tok = bytes_lit ''Hittt''"
    using rstrip0_token [of ?tok DECISION_HIT] rstrip0_hit len
    by (simp add: DECISION_HIT_def bytes_lit_def)
  have s: "rstrip0 ?tok = DECISION_STAND \<longleftrightarrow> ?tok = bytes_lit ''Stand''"
    using rstrip0_token [of ?tok DECISION_STAND] rstrip0_stand len
    by (simp add: DECISION_STAND_def bytes_lit_def)
  have "unpack_client_payload data =
           (if ?tok = bytes_lit ''Hittt'' then Inr (str_lit ''Hit'')
            else if ?tok = bytes_lit ''Stand'' then Inr (str_lit ''Stand'')
            else Inl (ValueError ''Unknown decision''))"
    using assms by (simp only: unpack_client_payload_eq h s) simp
  moreover have "bytes_lit ''Hittt'' \<noteq> bytes_lit ''Stand''"
    and "length (bytes_lit ''Hittt'') = 5" and "length (bytes_lit ''Stand'') = 5"
    by (simp_all add: bytes_lit_def)
  moreover have "str_lit ''Hit'' \<noteq> str_lit ''Stand''"
    by (simp add: str_lit_def)
  moreover have "replicate 5 (0::byte) = [0, 0, 0, 0, 0]"
    by (simp add: numeral_eq_Suc)
  then have "replicate 5 0 \<noteq> bytes_lit ''Hittt''" and "replicate 5 0 \<noteq> bytes_lit ''Stand''"
    by (simp_all add: bytes_lit_def)
  ultimately show ?thesis by blast
qed

theorem C4_decision_tokens_witness:
  "10 \<le> length [0xab, 0xcd, 0xdc, 0xba, 4, 0x48, 0x69, 0x74, 0x74, 0x74 :: byte]
   \<and> header_ok [0xab, 0xcd, 0xdc, 0xba, 4, 0x48, 0x69, 0x74, 0x74, 0x74] 4
   \<and> unpack_client_payload [0xab, 0xcd, 0xdc, 0xba, 4, 0x48, 0x69, 0x74, 0x74, 0x74] = Inr (str_lit ''Hit'')
   \<and> 10 \<le> length [0xab, 0xcd, 0xdc, 0xba, 4, 0, 0, 0, 0, 0 :: byte]
   \<and> header_ok [0xab, 0xcd, 0xdc, 0xba, 4, 0, 0, 0, 0, 0] 4
   \<and> unpack_client_payload [0xab, 0xcd, 0xdc, 0xba, 4, 0, 0, 0, 0, 0] = Inl (ValueError ''Unknown decision'')"
  using C4_decision_tokens [of "[0xab, 0xcd, 0xdc, 0xba, 4, 0x48, 0x69, 0x74, 0x74, 0x74]"]
        C4_decision_tokens [of "[0xab, 0xcd, 0xdc, 0xba, 4, 0, 0, 0, 0, 0]"]
  by (simp add: header_ok_def bytes_lit_def)

subsection \<open>Buffers longer than a message\<close>

lemma header_ok_append: "4 < length msg \<Longrightarrow> header_ok (msg @ extra) t = header_ok msg t"
  by (simp add: header_ok_def nth_append)

text \<open>
  Claim C9. Each of the four decoders accepts any buffer at least as long as its message:
  when the buffer is a message of the fixed size followed by further bytes, the result
  is the result of decoding the message alone, so a valid message decodes and the
  bytes after it are ignored. The too-short error is raised exactly when the buffer is
  strictly shorter than the fixed size.
\<close>

theorem C9_trailing_bytes_ignored:
  "(length msg = 39 \<longrightarrow> unpack_offer (msg @ extra) = unpack_offer msg)
   \<and> (length msg = 38 \<longrightarrow> unpack_request (msg @ extra) = unpack_request msg)
   \<and> (length msg = 10 \<longrightarrow> unpack_client_payload (msg @ extra) = unpack_client_payload msg)
   \<and> (length msg = 9 \<longrightarrow> unpack_server_payload (msg @ extra) = unpack_server_payload msg)
   \<and> (unpack_offer data = Inl (ValueError ''Offer packet too short'') \<longleftrightarrow> length data < 39)
   \<and> (unpack_request data = Inl (ValueError ''Request packet too short'') \<longleftrightarrow> length data < 38)
   \<and> (unpack_client_payload data = Inl (ValueError ''Client payload too short'') \<longleftrightarrow> length data < 10)
   \<and> (unpack_server_payload data = Inl (ValueError ''Server payload too short'') \<longleftrightarrow> length data < 9)"
proof -
  have a: "length msg = 39 \<longrightarrow> unpack_offer (msg @ extra) = unpack_offer msg"
    by (simp add: unpack_offer_eq header_ok_append nth_append)
  have b: "length msg = 38 \<longrightarrow> unpack_request (msg @ extra) = unpack_request msg"
    by (simp add: unpack_request_eq header_ok_append nth_append)
  have c: "length msg = 10 \<longrightarrow> unpack_client_payload (msg @ extra) = unpack_client_payload msg"
    by (simp add: unpack_client_payload_eq header_ok_append nth_append)
  have d: "length msg = 9 \<longrightarrow> unpack_server_payload (msg @ extra) = unpack_server_payload msg"
    by (simp add: unpack_server_payload_eq header_ok_append nth_append)
  have e: "unpack_offer data = Inl (ValueError ''Offer packet too short'') \<longleftrightarrow> length data < 39"
    by (simp add: unpack_offer_eq)
  have f: "unpack_request data = Inl (ValueError ''Request packet too short'') \<longleftrightarrow> length data < 38"
    by (simp add: unpack_request_eq)
  have g: "unpack_client_payload data = Inl (ValueError ''Client payload too short'') \<longleftrightarrow> length data < 10"
    by (simp add: unpack_client_payload_eq)
  have h: "unpack_server_payload data = Inl (ValueError ''Server payload too short'') \<longleftrightarrow> length data < 9"
    by (simp add: unpack_server_payload_eq)
  from a b c d e f g h show ?thesis by blast
qed


theorem C9_trailing_bytes_ignored_witness:
  "length [0xab, 0xcd, 0xdc, 0xba, 4, 0, 0, 13, 3 :: byte] = 9
   \<and> unpack_server_payload ([0xab, 0xcd, 0xdc, 0xba, 4, 0, 0, 13, 3] @ [1, 2, 3])
       = unpack_server_payload [0xab, 0xcd, 0xdc, 0xba, 4, 0, 0, 13, 3]
   \<and> unpack_server_payload [0xab, 0xcd, 0xdc, 0xba, 4, 0, 0, 13, 3] = Inr (0, 13, 3)
   \<and> length [0xab, 0xcd, 0xdc, 0xba, 4, 0x53, 0x74, 0x61, 0x6e, 0x64 :: byte] = 10
   \<and> unpack_client_payload ([0xab, 0xcd, 0xdc, 0xba, 4, 0x53, 0x74, 0x61, 0x6e, 0x64] @ [9])
       = unpack_client_payload [0xab, 0xcd, 0xdc, 0xba, 4, 0x53, 0x74, 0x61, 0x6e, 0x64]
   \<and> length ([0xab, 0xcd, 0xdc, 0xba, 3, 5] @ replicate 32 (0::byte)) = 38
   \<and> unpack_request (([0xab, 0xcd, 0xdc, 0xba, 3, 5] @ replicate 32 0) @ [7, 7])
       = unpack_request ([0xab, 0xcd, 0xdc, 0xba, 3, 5] @ replicate 32 0)
   \<and> length ([0xab, 0xcd, 0xdc, 0xba, 2, 0x1f, 0x90] @ replicate 32 (0::byte)) = 39
   \<and> unpack_offer (([0xab, 0xcd, 0xdc, 0xba, 2, 0x1f, 0x90] @ replicate 32 0) @ [7])
       = unpack_offer ([0xab, 0xcd, 0xdc, 0xba, 2, 0x1f, 0x90] @ replicate 32 0)
   \<and> unpack_server_payload [0xab, 0xcd, 0xdc, 0xba, 4, 0, 0, 13] = Inl (ValueError ''Server payload too short'')"
  using C9_trailing_bytes_ignored [where msg = "[0xab, 0xcd, 0xdc, 0xba, 4, 0, 0, 13, 3]"
          and extra = "[1, 2, 3]" and data = "[0xab, 0xcd, 0xdc, 0xba, 4, 0, 0, 13]"]
        C9_trailing_bytes_ignored [where msg = "[0xab, 0xcd, 0xdc, 0xba, 4, 0x53, 0x74, 0x61, 0x6e, 0x64]"
          and extra = "[9]"]
        C9_trailing_bytes_ignored [where msg = "[0xab, 0xcd, 0xdc, 0xba, 3, 5] @ replicate 32 0"
          and extra = "[7, 7]"]
        C9_trailing_bytes_ignored [where msg = "[0xab, 0xcd, 0xdc, 0xba, 2, 0x1f, 0x90] @ replicate 32 0"
          and extra = "[7]"]
  by (simp add: unpack_server_payload_eq header_ok_def)

subsection \<open>What the encoders produce\<close>

lemma length_encode_team_name: "length (encode_team_name name) = 32"
  by (simp add: encode_team_name_def TEAM_NAME_LEN_def ljust0_def Let_def)

lemma pack_s_name: "pack_s 32 (encode_team_name name) = Inr (encode_team_name name)"
  by (simp add: pack_s_def length_encode_team_name)

lemma pack_magic: "pack_I MAGIC_COOKIE = Inr [0xab, 0xcd, 0xdc, 0xba]"
  by (simp add: pack_I_def MAGIC_COOKIE_def)

lemma pack_offer_eq:
  "pack_offer tcp_port server_name =
     (if 0 \<le> tcp_port \<and> tcp_port \<le> 65535
      then Inr ([0xab, 0xcd, 0xdc, 0xba, 2, of_int (tcp_port div 256), of_int tcp_port]
                @ encode_team_name server_name)
      else Inl StructError)"
  by (simp add: pack_offer_def pack_magic pack_s_name pack_B_def pack_H_def OFFER_TYPE_def)

lemma pack_request_eq:
  "pack_request rounds client_name =
     (if 0 \<le> rounds \<and> rounds \<le> 255
      then Inr ([0xab, 0xcd, 0xdc, 0xba, 3, of_int rounds] @ encode_team_name client_name)
      else Inl StructError)"
  by (simp add: pack_request_def pack_magic pack_s_name pack_B_def REQUEST_TYPE_def)

lemma pack_server_payload_ok:
  "0 \<le> res \<Longrightarrow> res \<le> 255 \<Longrightarrow> 0 \<le> rank \<Longrightarrow> rank \<le> 65535 \<Longrightarrow> 0 \<le> suit \<Longrightarrow> suit \<le> 255 \<Longrightarrow>
   pack_server_payload res rank suit =
     Inr [0xab, 0xcd, 0xdc, 0xba, 4, of_int res, of_int (rank div 256), of_int rank, of_int suit]"
  by (simp add: pack_server_payload_def pack_magic pack_B_def pack_H_def PAYLOAD_TYPE_def)


lemma pack_client_payload_eq:
  "pack_client_payload decision =
     (if lower decision = str_lit ''hit'' then Inr ([0xab, 0xcd, 0xdc, 0xba, 4] @ bytes_lit ''Hittt'')
      else if lower decision = str_lit ''stand'' then Inr ([0xab, 0xcd, 0xdc, 0xba, 4] @ bytes_lit ''Stand'')
      else Inl (ValueError ''Invalid decision''))"
  by (simp add: pack_client_payload_def pack_magic pack_B_def pack_s_def PAYLOAD_TYPE_def
      DECISION_HIT_def DECISION_STAND_def bytes_lit_def)

section \<open>Cards and hands\<close>

text \<open>
  Claim C2. For a rank between 1 and 13, \<open>card_value\<close> is 11 for the Ace, 10 for rank
  11 and above, and the rank itself otherwise. \<open>hand_value\<close> is the sum of \<open>card_value\<close>
  over the ranks of the hand, with no reduction for an Ace: two Aces score 22, whatever
  their suits.
\<close>

theorem C2_card_and_hand_value:
  "(1 \<le> r \<and> r \<le> 13 \<longrightarrow> card_value r = (if r = 1 then 11 else if r \<ge> 11 then 10 else r))
   \<and> hand_value hand = (\<Sum>c\<leftarrow>hand. card_value (fst c))
   \<and> hand_value [(1, s1), (1, s2)] = 22"
proof -
  have "(\<lambda>(rank, _). card_value rank) = (\<lambda>c :: card. card_value (fst c))"
    by (simp add: fun_eq_iff)
  then have "hand_value hand = (\<Sum>c\<leftarrow>hand. card_value (fst c))"
    by (simp add: hand_value_def)
  then show ?thesis by (simp add: card_value_def hand_value_def)
qed

theorem C2_card_and_hand_value_witness:
  "(1::int) \<le> 12 \<and> (12::int) \<le> 13 \<and> card_value 12 = 10
   \<and> hand_value [(1, 0), (13, 1), (5, 2)] = card_value 1 + card_value 13 + card_value 5
   \<and> hand_value [(1, 0), (1, 3)] = 22"
  using C2_card_and_hand_value [of 12 "[(1, 0), (13, 1), (5, 2)]" 0 3]
  by simp

section \<open>Receiving a fixed number of bytes\<close>

lemma recv_exact_loop_err:
  "recv_exact_loop s n data = (s', Inl e) \<Longrightarrow> outbound s' = outbound s \<and> closed s' = closed s"
proof (induction s n data rule: recv_exact_loop.induct)
  case (1 s n data)
  show ?case
  proof (cases "length data < n")
    case False
    with "1.prems" show ?thesis by (simp add: recv_exact_loop.simps [of s n data])
  next
    case True
    obtain chunk s1 where r: "recv s (n - length data) = (chunk, s1)" by force
    show ?thesis
    proof (cases "chunk = []")
      case True
      with "1.prems" \<open>length data < n\<close> r recv_chunk [OF r] show ?thesis
        by (simp add: recv_exact_loop.simps [of s n data])
    next
      case False
      with "1.prems" \<open>length data < n\<close> r
      have rec: "recv_exact_loop s1 n (data @ chunk) = (s', Inl e)"
        by (simp add: recv_exact_loop.simps [of s n data])
      from "1.IH" [OF \<open>length data < n\<close> r [symmetric] False rec] recv_chunk [OF r]
      show ?thesis by simp
    qed
  qed
qed

lemma recv_exact_example:
  "recv_exact \<lparr>inbound = [[1, 2], [3, 4, 5]], outbound = [], closed = False\<rparr> 3
     = (\<lparr>inbound = [[4, 5]], outbound = [], closed = False\<rparr>, Inr [1, 2, 3])"
  by (simp add: recv_exact_def recv_exact_loop.simps recv_def)

section \<open>Validation in the decoders\<close>

text \<open>
  Claim C5, as amended. Every decoder checks the length first and raises its "too short"
  error when the buffer is shorter than the message. Otherwise it checks the magic
  cookie and the type tag in one condition and raises one and the same "invalid" error
  when either is wrong; this error differs from the "too short" error. In both cases
  nothing of the buffer is returned. A buffer that passes the three checks is decoded
  (for a client decision: decoded, or refused for its token).
\<close>

theorem C5_checks_in_order:
  "(length data < 39 \<longrightarrow> unpack_offer data = Inl (ValueError ''Offer packet too short''))
   \<and> (39 \<le> length data \<and> \<not> header_ok data 2 \<longrightarrow>
        unpack_offer data = Inl (ValueError ''Invalid offer packet''))
   \<and> (39 \<le> length data \<and> header_ok data 2 \<longrightarrow> (\<exists>r. unpack_offer data = Inr r))
   \<and> (length data < 38 \<longrightarrow> unpack_request data = Inl (ValueError ''Request packet too short''))
   \<and> (38 \<le> length data \<and> \<not> header_ok data 3 \<longrightarrow>
        unpack_request data = Inl (ValueError ''Invalid request packet''))
   \<and> (38 \<le> length data \<and> header_ok data 3 \<longrightarrow> (\<exists>r. unpack_request data = Inr r))
   \<and> (length data < 10 \<longrightarrow> unpack_client_payload data = Inl (ValueError ''Client payload too short''))
   \<and> (10 \<le> length data \<and> \<not> header_ok data 4 \<longrightarrow>
        unpack_client_payload data = Inl (ValueError ''Invalid client payload''))
   \<and> (10 \<le> length data \<and> header_ok data 4 \<longrightarrow>
        unpack_client_payload data \<in> {Inr (str_lit ''Hit''), Inr (str_lit ''Stand''),
                                      Inl (ValueError ''Unknown decision'')})
   \<and> (length data < 9 \<longrightarrow> unpack_server_payload data = Inl (ValueError ''Server payload too short''))
   \<and> (9 \<le> length data \<and> \<not> header_ok data 4 \<longrightarrow>
        unpack_server_payload data = Inl (ValueError ''Invalid server payload''))
   \<and> (9 \<le> length data \<and> header_ok data 4 \<longrightarrow> (\<exists>r. unpack_server_payload data = Inr r))
   \<and> ValueError ''Offer packet too short'' \<noteq> ValueError ''Invalid offer packet''
   \<and> ValueError ''Request packet too short'' \<noteq> ValueError ''Invalid request packet''
   \<and> ValueError ''Client payload too short'' \<noteq> ValueError ''Invalid client payload''
   \<and> ValueError ''Server payload too short'' \<noteq> ValueError ''Invalid server payload''"
  by (simp add: unpack_offer_eq unpack_request_eq unpack_client_payload_eq unpack_server_payload_eq)

theorem C5_checks_in_order_witness:
  "length [0xab, 0xcd, 0xdc, 0xba, 4, 0, 0, 13 :: byte] < 9
   \<and> unpack_server_payload [0xab, 0xcd, 0xdc, 0xba, 4, 0, 0, 13] = Inl (ValueError ''Server payload too short'')
   \<and> 9 \<le> length [0x00, 0xcd, 0xdc, 0xba, 4, 0, 0, 13, 3 :: byte]
   \<and> \<not> header_ok [0x00, 0xcd, 0xdc, 0xba, 4, 0, 0, 13, 3] 4
   \<and> unpack_server_payload [0x00, 0xcd, 0xdc, 0xba, 4, 0, 0, 13, 3] = Inl (ValueError ''Invalid server payload'')
   \<and> header_ok [0xab, 0xcd, 0xdc, 0xba, 4, 0, 0, 13, 3] 4
   \<and> (\<exists>r. unpack_server_payload [0xab, 0xcd, 0xdc, 0xba, 4, 0, 0, 13, 3] = Inr r)"
  using C5_checks_in_order [of "[0xab, 0xcd, 0xdc, 0xba, 4, 0, 0, 13]"]
        C5_checks_in_order [of "[0x00, 0xcd, 0xdc, 0xba, 4, 0, 0, 13, 3]"]
        C5_checks_in_order [of "[0xab, 0xcd, 0xdc, 0xba, 4, 0, 0, 13, 3]"]
  by (simp add: header_ok_def)

text \<open>
  The claim as first stated asks for a distinct error at whichever check fails first.
  A wrong magic cookie and a wrong type tag raise the same error: the two failures
  cannot be told apart.
\<close>

theorem C5_two_errors_counterexample:
  "unpack_server_payload [0x00, 0xcd, 0xdc, 0xba, 4, 0, 0, 13, 3] = Inl (ValueError ''Invalid server payload'')
   \<and> unpack_server_payload [0xab, 0xcd, 0xdc, 0xba, 3, 0, 0, 13, 3] = Inl (ValueError ''Invalid server payload'')
   \<and> unpack_request ([0x00, 0xcd, 0xdc, 0xba, 3, 1] @ replicate 32 0) = Inl (ValueError ''Invalid request packet'')
   \<and> unpack_request ([0xab, 0xcd, 0xdc, 0xba, 4, 1] @ replicate 32 0) = Inl (ValueError ''Invalid request packet'')"
  by (simp add: unpack_server_payload_eq unpack_request_eq header_ok_def)

section \<open>The request and the number of rounds\<close>

lemma unpack_request_fields:
  "length name = 32 \<Longrightarrow>
     unpack_request ([0xab, 0xcd, 0xdc, 0xba, 3, r] @ name @ extra) = Inr (uint r, decode_team_name name)"
  by (simp add: unpack_request_eq header_ok_def)

lemma recv_exact_request_example:
  "recv_exact \<lparr>inbound = [[0xab, 0xcd, 0xdc, 0xba, 3, 0] @ replicate 32 0], outbound = [], closed = False\<rparr>
       REQUEST_SIZE
   = (\<lparr>inbound = [], outbound = [], closed = False\<rparr>,
      Inr ([0xab, 0xcd, 0xdc, 0xba, 3, 0] @ replicate 32 0))"
  by (simp add: recv_exact_def recv_exact_loop.simps recv_def REQUEST_SIZE_def)

lemma decode_team_name_zeros: "decode_team_name (replicate n 0) = []"
  by (simp add: decode_team_name_def takeWhile_replicate utf8_decode_def utf8_decode_loop.simps)

text \<open>
  Claim C10. \<open>unpack_request\<close> does not check the range of the rounds field: a buffer
  with a valid header, any byte \<open>r\<close> in the rounds field and 32 name bytes decodes to
  the number \<open>r\<close> stands for, unchanged. With rounds = 0 the session plays no round:
  \<open>handle_client\<close> sends nothing, closes the socket and ends without an exception.
\<close>

theorem C10_rounds_not_range_checked:
  "(length name = 32 \<longrightarrow>
      unpack_request ([0xab, 0xcd, 0xdc, 0xba, 3, r] @ name @ extra) = Inr (uint r, decode_team_name name))
   \<and> (recv_exact client_sock REQUEST_SIZE = (s1, Inr ([0xab, 0xcd, 0xdc, 0xba, 3, 0] @ name)) \<longrightarrow>
        handle_client shuffle client_sock = (close s1, Inr [])
        \<and> outbound (close s1) = outbound client_sock \<and> closed (close s1))"
proof -
  have a: "length name = 32 \<longrightarrow>
      unpack_request ([0xab, 0xcd, 0xdc, 0xba, 3, r] @ name @ extra) = Inr (uint r, decode_team_name name)"
    using unpack_request_fields [of name r extra] by blast
  have b: "handle_client shuffle client_sock = (close s1, Inr [])
        \<and> outbound (close s1) = outbound client_sock \<and> closed (close s1)"
    if r: "recv_exact client_sock REQUEST_SIZE = (s1, Inr ([0xab, 0xcd, 0xdc, 0xba, 3, 0] @ name))"
  proof -
    from recv_exact_ok [OF r] have len: "length name = 32" and ob: "outbound s1 = outbound client_sock"
      by (simp_all add: REQUEST_SIZE_def)
    from len have "unpack_request ([0xab, 0xcd, 0xdc, 0xba, 3, 0] @ name) = Inr (0, decode_team_name name)"
      using unpack_request_fields [of name 0 "[]"] by simp
    with r ob show ?thesis by (simp add: handle_client_def close_def)
  qed
  from a b show ?thesis by blast
qed

theorem C10_rounds_not_range_checked_witness:
  "length (replicate 32 (0::byte)) = 32
   \<and> unpack_request ([0xab, 0xcd, 0xdc, 0xba, 3, 255] @ replicate 32 0 @ []) = Inr (255, [])
   \<and> unpack_request ([0xab, 0xcd, 0xdc, 0xba, 3, 0] @ replicate 32 0 @ []) = Inr (0, [])
   \<and> recv_exact \<lparr>inbound = [[0xab, 0xcd, 0xdc, 0xba, 3, 0] @ replicate 32 0], outbound = [], closed = False\<rparr>
         REQUEST_SIZE
       = (\<lparr>inbound = [], outbound = [], closed = False\<rparr>,
          Inr ([0xab, 0xcd, 0xdc, 0xba, 3, 0] @ replicate 32 0))
   \<and> handle_client (\<lambda>r xs. xs)
         \<lparr>inbound = [[0xab, 0xcd, 0xdc, 0xba, 3, 0] @ replicate 32 0], outbound = [], closed = False\<rparr>
       = (\<lparr>inbound = [], outbound = [], closed = True\<rparr>, Inr [])"
  using C10_rounds_not_range_checked [where name = "replicate 32 0" and r = 255 and extra = "[]"]
        C10_rounds_not_range_checked [where name = "replicate 32 0" and r = 0 and extra = "[]"
          and client_sock = "\<lparr>inbound = [[0xab, 0xcd, 0xdc, 0xba, 3, 0] @ replicate 32 0], outbound = [], closed = False\<rparr>"
          and ?s1.0 = "\<lparr>inbound = [], outbound = [], closed = False\<rparr>" and shuffle = "\<lambda>r xs. xs"]
        recv_exact_request_example
  by (simp add: decode_team_name_zeros close_def)

section \<open>The deck\<close>

lemma length_fresh_cards: "length fresh_cards = 52"
  by (simp add: fresh_cards_def RANKS_def SUITS_def)

lemma distinct_fresh_cards: "distinct fresh_cards"
  by (auto simp: fresh_cards_def RANKS_def SUITS_def distinct_map inj_on_def)

lemma set_fresh_cards: "set fresh_cards = {1..13} \<times> {0..3}"
proof -
  have "set SUITS = {0..3}" by (auto simp: SUITS_def)
  moreover have "set RANKS = {1..13}" by (simp add: RANKS_def)
  ultimately show ?thesis by (auto simp: fresh_cards_def)
qed

lemma draw_Inr:
  "draw d = Inr (c, d') \<Longrightarrow> cards d = cards d' @ [c]"
  by (auto simp: draw_def split: if_splits)

lemma draw_nonempty:
  "cards d \<noteq> [] \<Longrightarrow> draw d = Inr (last (cards d), d\<lparr>cards := butlast (cards d)\<rparr>)"
  by (simp add: draw_def)

lemma draw_n_Inr:
  "draw_n n d = Inr (cs, d') \<Longrightarrow> cards d = cards d' @ rev cs \<and> length cs = n"
proof (induction n arbitrary: d cs)
  case 0
  then show ?case by simp
next
  case (Suc n)
  then obtain c d1 cs1 where d: "draw d = Inr (c, d1)" and r: "draw_n n d1 = Inr (cs1, d')"
    and cs: "cs = c # cs1"
    by (auto split: sum.splits)
  from Suc.IH [OF r] draw_Inr [OF d] cs show ?case by simp
qed

lemma draw_n_total:
  "n \<le> length (cards d) \<Longrightarrow> \<exists>cs d'. draw_n n d = Inr (cs, d')"
proof (induction n arbitrary: d)
  case 0
  then show ?case by simp
next
  case (Suc n)
  then have ne: "cards d \<noteq> []" by auto
  let ?d1 = "d\<lparr>cards := butlast (cards d)\<rparr>"
  from Suc.prems have "n \<le> length (cards ?d1)" by simp
  from Suc.IH [OF this] obtain cs d' where "draw_n n ?d1 = Inr (cs, d')" by blast
  with draw_nonempty [OF ne] show ?case by simp
qed


lemma cards_Deck_init: "cards (Deck_init shuffle) = shuffle fresh_cards"
  by (simp add: Deck_init_def fresh_cards_def)

text \<open>
  Claim C6. Whatever permutation \<^verbatim>\<open>random.shuffle\<close> applies, a freshly constructed deck
  holds exactly 52 cards, all different, one for each pair of a rank in 1..13 and a
  suit in 0..3. A draw from a deck that is not empty removes its last card and returns
  it, so the deck is one card shorter and the card is not in it again. 52 draws from a
  fresh deck succeed, return every card exactly once and leave the deck empty; a further
  draw raises \<^verbatim>\<open>IndexError\<close>.
\<close>

theorem C6_fresh_deck_and_draw:
  assumes perm: "\<And>xs. mset (shuffle xs) = mset xs"
  shows "length (cards (Deck_init shuffle)) = 52
    \<and> distinct (cards (Deck_init shuffle))
    \<and> set (cards (Deck_init shuffle)) = {1..13} \<times> {0..3}
    \<and> (cards d \<noteq> [] \<longrightarrow>
          (\<exists>c d'. draw d = Inr (c, d') \<and> cards d = cards d' @ [c]
                  \<and> Suc (length (cards d')) = length (cards d)))
    \<and> (cards d = [] \<longrightarrow> draw d = Inl (IndexError ''pop from empty list''))
    \<and> (\<exists>cs d'. draw_n 52 (Deck_init shuffle) = Inr (cs, d') \<and> cards d' = []
          \<and> distinct cs \<and> set cs = {1..13} \<times> {0..3}
          \<and> draw d' = Inl (IndexError ''pop from empty list''))"
proof -
  let ?D = "Deck_init shuffle"
  have m: "mset (cards ?D) = mset fresh_cards"
    by (simp add: cards_Deck_init perm)
  have len: "length (cards ?D) = 52"
    using mset_eq_length [OF m] by (simp add: length_fresh_cards)
  have dist: "distinct (cards ?D)"
    using mset_eq_imp_distinct_iff [OF m] distinct_fresh_cards by simp
  have st: "set (cards ?D) = {1..13} \<times> {0..3}"
    using mset_eq_setD [OF m] set_fresh_cards by simp
  have dr: "cards d \<noteq> [] \<longrightarrow>
          (\<exists>c d'. draw d = Inr (c, d') \<and> cards d = cards d' @ [c]
                  \<and> Suc (length (cards d')) = length (cards d))"
    by (simp add: draw_nonempty)
  have em: "cards d = [] \<longrightarrow> draw d = Inl (IndexError ''pop from empty list'')"
    by (simp add: draw_def)
  from len draw_n_total [of 52 ?D] obtain cs d' where r: "draw_n 52 ?D = Inr (cs, d')"
    by auto
  from draw_n_Inr [OF r] len have e: "cards d' = []" and c: "rev cs = cards ?D"
    by auto
  from c dist have dcs: "distinct cs" by (metis distinct_rev)
  from c st have scs: "set cs = {1..13} \<times> {0..3}" by (metis set_rev)
  from e have "draw d' = Inl (IndexError ''pop from empty list'')" by (simp add: draw_def)
  with r e dcs scs have
    "\<exists>cs d'. draw_n 52 ?D = Inr (cs, d') \<and> cards d' = []
          \<and> distinct cs \<and> set cs = {1..13} \<times> {0..3}
          \<and> draw d' = Inl (IndexError ''pop from empty list'')"
    by blast
  with len dist st dr em show ?thesis by blast
qed

theorem C6_fresh_deck_and_draw_witness:
  "length (cards (Deck_init rev)) = 52
    \<and> distinct (cards (Deck_init rev))
    \<and> set (cards (Deck_init rev)) = {1..13} \<times> {0..3}
    \<and> cards \<lparr>cards = [(1, 0), (13, 3)]\<rparr> \<noteq> []
    \<and> draw \<lparr>cards = [(1, 0), (13, 3)]\<rparr> = Inr ((13, 3), \<lparr>cards = [(1, 0)]\<rparr>)
    \<and> draw \<lparr>cards = []\<rparr> = Inl (IndexError ''pop from empty list'')
    \<and> (\<exists>cs d'. draw_n 52 (Deck_init rev) = Inr (cs, d') \<and> cards d' = []
          \<and> distinct cs \<and> set cs = {1..13} \<times> {0..3}
          \<and> draw d' = Inl (IndexError ''pop from empty list''))"
  using C6_fresh_deck_and_draw [of rev "\<lparr>cards = [(1, 0), (13, 3)]\<rparr>"]
        C6_fresh_deck_and_draw [of rev "\<lparr>cards = []\<rparr>"]
  by (simp add: draw_def)

section \<open>The round engine\<close>

subsection \<open>What a completed round has sent\<close>

lemma uint_of_int_byte: "0 \<le> v \<Longrightarrow> v \<le> 255 \<Longrightarrow> uint (of_int v :: byte) = v"
  by (simp add: uint_word_of_int_eq take_bit_int_eq_self)

lemma uint_of_int_hi: "0 \<le> v \<Longrightarrow> v \<le> 65535 \<Longrightarrow>
   uint (of_int (v div 256) :: byte) * 256 + uint (of_int v :: byte) = v"
proof -
  assume a: "0 \<le> v" "v \<le> 65535"
  then have "v div 256 \<le> 255" by simp
  with a have "uint (of_int (v div 256) :: byte) = v div 256"
    by (intro uint_of_int_byte) (simp_all add: pos_imp_zdiv_nonneg_iff)
  moreover have "uint (of_int v :: byte) = v mod 256"
    by (simp add: uint_word_of_int_eq take_bit_eq_mod)
  ultimately show ?thesis by simp
qed


lemma send_server_payload_Inr:
  "send_server_payload s res rank suit = (s', Inr u) \<Longrightarrow>
     \<exists>m. pack_server_payload res rank suit = Inr m \<and> outbound s' = outbound s @ [m]
         \<and> inbound s' = inbound s \<and> closed s' = closed s"
  by (auto simp: send_server_payload_def sendall_def split: sum.splits)

lemma send_cards_Inr:
  "send_cards s hand = (s', Inr u) \<Longrightarrow>
     \<exists>ms. card_events hand ms \<and> outbound s' = outbound s @ ms
          \<and> inbound s' = inbound s \<and> closed s' = closed s"
proof (induction s hand rule: send_cards.induct)
  case (1 s)
  then show ?case by (simp add: card_events_def)
next
  case (2 s rank suit hand)
  from "2.prems" obtain s1 u1 where a: "send_server_payload s RESULT_NOT_OVER rank suit = (s1, Inr u1)"
    and b: "send_cards s1 hand = (s', Inr u)"
    by (auto split: prod.splits sum.splits)
  from send_server_payload_Inr [OF a] obtain m where
    m: "pack_server_payload RESULT_NOT_OVER rank suit = Inr m" "outbound s1 = outbound s @ [m]"
       "inbound s1 = inbound s" "closed s1 = closed s"
    by blast
  from "2.IH" [OF a [symmetric] _ b] obtain ms where
    ms: "card_events hand ms" "outbound s' = outbound s1 @ ms" "inbound s' = inbound s1"
        "closed s' = closed s1"
    by auto
  from m ms have "card_events ((rank, suit) # hand) (m # ms)"
    by (simp add: card_events_def)
  with m ms show ?case by (intro exI [of _ "m # ms"]) simp
qed


lemma dealer_turn_Inr:
  "dealer_turn s dk hand = (s', Inr (dk', hand')) \<Longrightarrow>
     \<exists>drawn ms. hand' = hand @ drawn \<and> cards dk = cards dk' @ rev drawn
        \<and> card_events drawn ms \<and> outbound s' = outbound s @ ms
        \<and> inbound s' = inbound s \<and> closed s' = closed s
        \<and> 17 \<le> hand_value hand'
        \<and> (\<forall>k<length drawn. hand_value (hand @ take k drawn) < 17)"
proof (induction s dk hand rule: dealer_turn.induct)
  case (1 s dk hand)
  show ?case
  proof (cases "hand_value hand < 17")
    case False
    with "1.prems" have "s' = s" "dk' = dk" "hand' = hand"
      by (simp_all add: dealer_turn.simps [of s dk hand])
    with False show ?thesis
      by (intro exI [of _ "[]"]) (simp add: card_events_def)
  next
    case True
    with "1.prems" obtain c dk1 s1 u where
      d: "draw dk = Inr (c, dk1)" and
      sp: "send_server_payload s RESULT_NOT_OVER (fst c) (snd c) = (s1, Inr u)" and
      rec: "dealer_turn s1 dk1 (hand @ [c]) = (s', Inr (dk', hand'))"
      by (auto simp: dealer_turn.simps [of s dk hand] split: sum.splits prod.splits)
    from "1.IH" [OF True d refl sp [symmetric] refl rec] obtain drawn ms where
      ih: "hand' = (hand @ [c]) @ drawn" "cards dk1 = cards dk' @ rev drawn"
          "card_events drawn ms" "outbound s' = outbound s1 @ ms"
          "inbound s' = inbound s1" "closed s' = closed s1" "17 \<le> hand_value hand'"
          "\<forall>k<length drawn. hand_value ((hand @ [c]) @ take k drawn) < 17"
      by blast
    from send_server_payload_Inr [OF sp] obtain m where
      m: "pack_server_payload RESULT_NOT_OVER (fst c) (snd c) = Inr m"
         "outbound s1 = outbound s @ [m]" "inbound s1 = inbound s" "closed s1 = closed s"
      by blast
    have pre: "\<forall>k<length (c # drawn). hand_value (hand @ take k (c # drawn)) < 17"
    proof (intro allI impI)
      fix k assume "k < length (c # drawn)"
      then show "hand_value (hand @ take k (c # drawn)) < 17"
        using True ih(8) by (cases k) auto
    qed
    from m(1) ih(3) have ce: "card_events (c # drawn) (m # ms)"
      by (simp add: card_events_def)
    from ih m draw_Inr [OF d] pre ce show ?thesis
      by (intro exI [of _ "c # drawn"] exI [of _ "m # ms"]) simp
  qed
qed


lemma player_turn_Inr:
  "player_turn s dk hand = (s', Inr (dk', hand', bust)) \<Longrightarrow>
     \<exists>drawn ms. hand' = hand @ drawn \<and> cards dk = cards dk' @ rev drawn
        \<and> card_events drawn ms \<and> outbound s' = outbound s @ ms \<and> closed s' = closed s
        \<and> bust = (drawn \<noteq> [] \<and> 21 < hand_value hand')"
proof (induction s dk hand rule: player_turn.induct)
  case (1 s dk hand)
  obtain s1 r where rx: "recv_exact s CLIENT_PAYLOAD_SIZE = (s1, r)" by force
  with "1.prems" obtain data decision where
    r: "r = Inr data" and un: "unpack_client_payload data = Inr decision"
    by (auto simp: player_turn.simps [of s dk hand] split: sum.splits)
  from rx r recv_exact_ok have s1: "outbound s1 = outbound s" "closed s1 = closed s"
    by blast+
  show ?case
  proof (cases "decision = str_lit ''Hit''")
    case False
    with "1.prems" rx r un have "s' = s1" "dk' = dk" "hand' = hand" "bust = False"
      by (simp_all add: player_turn.simps [of s dk hand])
    with s1 show ?thesis
      by (intro exI [of _ "[]"]) (simp add: card_events_def)
  next
    case True
    with "1.prems" rx r un obtain c dk1 s2 u where
      d: "draw dk = Inr (c, dk1)" and
      sp: "send_server_payload s1 RESULT_NOT_OVER (fst c) (snd c) = (s2, Inr u)"
      by (auto simp: player_turn.simps [of s dk hand] Let_def split: sum.splits prod.splits)
    from send_server_payload_Inr [OF sp] obtain m where
      m: "pack_server_payload RESULT_NOT_OVER (fst c) (snd c) = Inr m"
         "outbound s2 = outbound s1 @ [m]" "closed s2 = closed s1"
      by blast
    show ?thesis
    proof (cases "21 < hand_value (hand @ [c])")
      case True
      with "1.prems" rx r un \<open>decision = str_lit ''Hit''\<close> d sp
      have "s' = s2" "dk' = dk1" "hand' = hand @ [c]" "bust = True"
        by (simp_all add: player_turn.simps [of s dk hand])
      with m s1 draw_Inr [OF d] True show ?thesis
        by (intro exI [of _ "[c]"] exI [of _ "[m]"]) (simp add: card_events_def)
    next
      case False
      with "1.prems" rx r un \<open>decision = str_lit ''Hit''\<close> d sp
      have rec: "player_turn s2 dk1 (hand @ [c]) = (s', Inr (dk', hand', bust))"
        by (simp add: player_turn.simps [of s dk hand])
      from "1.IH" [OF rx [symmetric] r un \<open>decision = str_lit ''Hit''\<close> d refl refl refl
          sp [symmetric] refl False rec]
      obtain drawn ms where
        ih: "hand' = (hand @ [c]) @ drawn" "cards dk1 = cards dk' @ rev drawn"
            "card_events drawn ms" "outbound s' = outbound s2 @ ms" "closed s' = closed s2"
            "bust = (drawn \<noteq> [] \<and> 21 < hand_value hand')"
        by blast
      from m(1) ih(3) have ce: "card_events (c # drawn) (m # ms)"
        by (simp add: card_events_def)
      from False ih(1,6) have b: "bust = (c # drawn \<noteq> [] \<and> 21 < hand_value hand')"
        by (cases drawn) auto
      from ih(1,2,4,5) m s1 draw_Inr [OF d] ce b show ?thesis
        by (intro exI [of _ "c # drawn"] exI [of _ "m # ms"]) simp
    qed
  qed
qed


lemma deal_Inr:
  "deal dk = Inr (ph, dh, dk') \<Longrightarrow>
     \<exists>p1 p2 d1 d2. ph = [p1, p2] \<and> dh = [d1, d2] \<and> cards dk = cards dk' @ [d2, d1, p2, p1]"
  by (auto simp: deal_def split: sum.splits dest!: draw_Inr)

lemma play_round_steps:
  assumes "play_round s dk0 = (s', Inr r)"
  obtains ph dh dk1 s1 u1 s2 u2 s3 dk2 ph1 bust s4 u4 s5 dk3 dh1 u6 where
    "deal dk0 = Inr (ph, dh, dk1)"
    "send_cards s ph = (s1, Inr u1)"
    "send_server_payload s1 RESULT_NOT_OVER (fst (dh ! 0)) (snd (dh ! 0)) = (s2, Inr u2)"
    "player_turn s2 dk1 ph = (s3, Inr (dk2, ph1, bust))"
    "send_server_payload s3 RESULT_NOT_OVER (fst (dh ! 1)) (snd (dh ! 1)) = (s4, Inr u4)"
    "(if \<not> bust then dealer_turn s4 dk2 dh else (s4, Inr (dk2, dh))) = (s5, Inr (dk3, dh1))"
    "send_server_payload s5 (decide_result bust (hand_value dh1) (hand_value ph1)) 0 0 = (s', Inr u6)"
    "r = \<lparr>player_hand = ph1, dealer_hand = dh1, player_bust = bust,
          result = decide_result bust (hand_value dh1) (hand_value ph1), deck = dk3\<rparr>"
  using assms
  by (auto simp: play_round_def Let_def split: sum.splits prod.splits)



subsection \<open>The example rounds, evaluated\<close>

lemmas round_eval =
  play_round_def deal_def draw_def send_server_payload_def sendall_def
  player_turn.simps dealer_turn.simps recv_exact_def recv_exact_loop.simps recv_def
  CLIENT_PAYLOAD_SIZE_def unpack_client_payload_eq header_ok_def rstrip0_def
  DECISION_HIT_def DECISION_STAND_def bytes_lit_def str_lit_def
  pack_server_payload_ok RESULT_NOT_OVER_def RESULT_WIN_def RESULT_LOSS_def RESULT_TIE_def
  decide_result_def hand_value_def card_value_def Let_def



subsection \<open>Outcome and events\<close>










section \<open>Framing by fixed sizes\<close>

subsection \<open>What the server reads\<close>

lemma decisions_Nil: "decisions []"
  by (simp add: decisions_def)

lemma decisions_Cons:
  "length d = 10 \<Longrightarrow> unpack_client_payload d = Inr x \<Longrightarrow> decisions ds \<Longrightarrow> decisions (d # ds)"
  by (auto simp: decisions_def)

lemma decisions_append: "decisions ds \<Longrightarrow> decisions ds' \<Longrightarrow> decisions (ds @ ds')"
  by (simp add: decisions_def)

lemma player_turn_reads:
  "player_turn s dk hand = (s', Inr (dk', hand', bust)) \<Longrightarrow>
     \<exists>ds. decisions ds \<and> concat (inbound s) = concat ds @ concat (inbound s')
        \<and> length hand + length ds = length hand' + (if bust then 0 else 1)"
proof (induction s dk hand rule: player_turn.induct)
  case (1 s dk hand)
  obtain s1 r where rx: "recv_exact s CLIENT_PAYLOAD_SIZE = (s1, r)" by force
  with "1.prems" obtain data decision where
    r: "r = Inr data" and un: "unpack_client_payload data = Inr decision"
    by (auto simp: player_turn.simps [of s dk hand] split: sum.splits)
  from rx r recv_exact_ok [of s CLIENT_PAYLOAD_SIZE s1 data]
  have d: "length data = 10" "data @ concat (inbound s1) = concat (inbound s)"
    by (simp_all add: CLIENT_PAYLOAD_SIZE_def)
  show ?case
  proof (cases "decision = str_lit ''Hit''")
    case False
    with "1.prems" rx r un have "s' = s1" "hand' = hand" "bust = False"
      by (simp_all add: player_turn.simps [of s dk hand])
    with d un show ?thesis
      by (intro exI [of _ "[data]"]) (simp add: decisions_def)
  next
    case True
    with "1.prems" rx r un obtain c dk1 s2 u where
      dr: "draw dk = Inr (c, dk1)" and
      sp: "send_server_payload s1 RESULT_NOT_OVER (fst c) (snd c) = (s2, Inr u)"
      by (auto simp: player_turn.simps [of s dk hand] Let_def split: sum.splits prod.splits)
    from send_server_payload_Inr [OF sp] have i2: "inbound s2 = inbound s1" by blast
    show ?thesis
    proof (cases "21 < hand_value (hand @ [c])")
      case True
      with "1.prems" rx r un \<open>decision = str_lit ''Hit''\<close> dr sp
      have "s' = s2" "hand' = hand @ [c]" "bust = True"
        by (simp_all add: player_turn.simps [of s dk hand])
      with d un i2 show ?thesis
        by (intro exI [of _ "[data]"]) (simp add: decisions_def)
    next
      case False
      with "1.prems" rx r un \<open>decision = str_lit ''Hit''\<close> dr sp
      have rec: "player_turn s2 dk1 (hand @ [c]) = (s', Inr (dk', hand', bust))"
        by (simp add: player_turn.simps [of s dk hand])
      from "1.IH" [OF rx [symmetric] r un \<open>decision = str_lit ''Hit''\<close> dr refl refl refl
          sp [symmetric] refl False rec]
      obtain ds where
        ih: "decisions ds" "concat (inbound s2) = concat ds @ concat (inbound s')"
            "length (hand @ [c]) + length ds = length hand' + (if bust then 0 else 1)"
        by blast
      from d(1) un ih(1) have "decisions (data # ds)" by (rule decisions_Cons)
      moreover from d(2) i2 ih(2) have "concat (inbound s) = concat (data # ds) @ concat (inbound s')"
        by simp
      moreover from ih(3) have "length hand + length (data # ds) = length hand' + (if bust then 0 else 1)"
        by simp
      ultimately show ?thesis by blast
    qed
  qed
qed


lemma play_round_reads:
  assumes "play_round s dk0 = (s', Inr r)"
  shows "\<exists>ds. decisions ds \<and> concat (inbound s) = concat ds @ concat (inbound s')
           \<and> length ds = decisions_read r"
proof -
  from assms obtain ph dh dk1 s1 u1 s2 u2 s3 dk2 ph1 bust s4 u4 s5 dk3 dh1 u6 where
    dl: "deal dk0 = Inr (ph, dh, dk1)" and
    sc: "send_cards s ph = (s1, Inr u1)" and
    sv: "send_server_payload s1 RESULT_NOT_OVER (fst (dh ! 0)) (snd (dh ! 0)) = (s2, Inr u2)" and
    pt: "player_turn s2 dk1 ph = (s3, Inr (dk2, ph1, bust))" and
    sh: "send_server_payload s3 RESULT_NOT_OVER (fst (dh ! 1)) (snd (dh ! 1)) = (s4, Inr u4)" and
    dt: "(if \<not> bust then dealer_turn s4 dk2 dh else (s4, Inr (dk2, dh))) = (s5, Inr (dk3, dh1))" and
    sf: "send_server_payload s5 (decide_result bust (hand_value dh1) (hand_value ph1)) 0 0 = (s', Inr u6)" and
    r: "r = \<lparr>player_hand = ph1, dealer_hand = dh1, player_bust = bust,
          result = decide_result bust (hand_value dh1) (hand_value ph1), deck = dk3\<rparr>"
    by (rule play_round_steps)
  from deal_Inr [OF dl] have lph: "length ph = 2" by auto
  from send_cards_Inr [OF sc] have i1: "inbound s1 = inbound s" by blast
  from send_server_payload_Inr [OF sv] have i2: "inbound s2 = inbound s1" by blast
  from player_turn_reads [OF pt] obtain ds where
    ds: "decisions ds" "concat (inbound s2) = concat ds @ concat (inbound s3)"
        "length ph + length ds = length ph1 + (if bust then 0 else 1)"
    by blast
  from send_server_payload_Inr [OF sh] have i4: "inbound s4 = inbound s3" by blast
  have i5: "inbound s5 = inbound s4"
  proof (cases bust)
    case True
    with dt show ?thesis by simp
  next
    case False
    with dt have "dealer_turn s4 dk2 dh = (s5, Inr (dk3, dh1))" by simp
    from dealer_turn_Inr [OF this] show ?thesis by blast
  qed
  from send_server_payload_Inr [OF sf] have i6: "inbound s' = inbound s5" by blast
  from player_turn_Inr [OF pt] lph have "2 \<le> length ph1" by auto
  with ds(3) lph r have "length ds = decisions_read r"
    by (auto simp: decisions_read_def split: if_splits)
  with ds(1,2) i1 i2 i4 i5 i6 show ?thesis by auto
qed

lemma rounds_loop_reads:
  "rounds_loop shuffle s r n = (s', Inr rds) \<Longrightarrow>
     length rds = n \<and>
     (\<exists>ds. decisions ds \<and> concat (inbound s) = concat ds @ concat (inbound s')
          \<and> length ds = sum_list (map decisions_read rds))"
proof (induction n arbitrary: s r rds)
  case 0
  then show ?case by (auto intro: exI [of _ "[]"] simp: decisions_Nil)
next
  case (Suc n)
  from Suc.prems obtain s1 rd rds1 where
    p: "play_round s (Deck_init (shuffle r)) = (s1, Inr rd)" and
    l: "rounds_loop shuffle s1 (r + 1) n = (s', Inr rds1)" and
    e: "rds = rd # rds1"
    by (auto split: prod.splits sum.splits)
  from play_round_reads [OF p] obtain ds where
    ds: "decisions ds" "concat (inbound s) = concat ds @ concat (inbound s1)"
        "length ds = decisions_read rd"
    by blast
  from Suc.IH [OF l] obtain ds1 where
    n: "length rds1 = n" and
    ds1: "decisions ds1" "concat (inbound s1) = concat ds1 @ concat (inbound s')"
         "length ds1 = sum_list (map decisions_read rds1)"
    by blast
  have "decisions (ds @ ds1)" using ds(1) ds1(1) by (rule decisions_append)
  moreover have "concat (inbound s) = concat (ds @ ds1) @ concat (inbound s')"
    using ds(2) ds1(2) by simp
  moreover have "length (ds @ ds1) = sum_list (map decisions_read rds)"
    using ds(3) ds1(3) e by simp
  ultimately show ?case using n e by auto
qed

lemma handle_client_reads:
  assumes "handle_client shuffle s = (s', Inr rds)"
  shows "\<exists>req ds name. length req = 38 \<and> unpack_request req = Inr (int (length rds), name)
           \<and> decisions ds \<and> length ds = sum_list (map decisions_read rds)
           \<and> concat (inbound s) = req @ concat ds @ concat (inbound s')"
proof -
  from assms obtain s1 req rounds name s2 where
    rx: "recv_exact s REQUEST_SIZE = (s1, Inr req)" and
    un: "unpack_request req = Inr (rounds, name)" and
    rl: "rounds_loop shuffle s1 1 (nat rounds) = (s2, Inr rds)" and
    cl: "s' = close s2"
    by (auto simp: handle_client_def split: prod.splits sum.splits)
  from recv_exact_ok [OF rx] have
    q: "length req = 38" "req @ concat (inbound s1) = concat (inbound s)"
    by (simp_all add: REQUEST_SIZE_def)
  from un q(1) have "rounds = uint (req ! 5)"
    by (simp add: unpack_request_eq split: if_splits)
  then have nn: "0 \<le> rounds" by simp
  from rounds_loop_reads [OF rl] obtain ds where
    n: "length rds = nat rounds" and
    ds: "decisions ds" "concat (inbound s1) = concat ds @ concat (inbound s2)"
        "length ds = sum_list (map decisions_read rds)"
    by blast
  from n nn have "int (length rds) = rounds" by simp
  with un have "unpack_request req = Inr (int (length rds), name)" by simp
  moreover from q(2) ds(2) cl have "concat (inbound s) = req @ concat ds @ concat (inbound s')"
    by (simp add: close_def)
  ultimately show ?thesis using q(1) ds(1,3) by blast
qed

subsection \<open>What the client reads\<close>

lemma events_Nil: "events []"
  by (simp add: events_def)

lemma events_Cons:
  "length e = 9 \<Longrightarrow> unpack_server_payload e = Inr x \<Longrightarrow> events evs \<Longrightarrow> events (e # evs)"
  by (cases x) (auto simp: events_def)

lemma events_append: "events evs \<Longrightarrow> events evs' \<Longrightarrow> events (evs @ evs')"
  by (simp add: events_def)

lemma recv_cards_reads:
  "recv_cards n s hand = (s', Inr hand') \<Longrightarrow>
     \<exists>evs. events evs \<and> length evs = n \<and> concat (inbound s) = concat evs @ concat (inbound s')
        \<and> outbound s' = outbound s"
proof (induction n arbitrary: s hand)
  case 0
  then show ?case by (auto intro: exI [of _ "[]"] simp: events_Nil)
next
  case (Suc n)
  from Suc.prems obtain s1 res rank suit where
    r: "recv_server_payload s = (s1, Inr (res, rank, suit))" and
    l: "recv_cards n s1 (hand @ [(rank, suit)]) = (s', Inr hand')"
    by (auto split: prod.splits sum.splits)
  from recv_server_payload_Inr [OF r] obtain data where
    d: "length data = 9" "unpack_server_payload data = Inr (res, rank, suit)"
       "data @ concat (inbound s1) = concat (inbound s)" "outbound s1 = outbound s"
    by blast
  from Suc.IH [OF l] obtain evs where
    e: "events evs" "length evs = n" "concat (inbound s1) = concat evs @ concat (inbound s')"
       "outbound s' = outbound s1"
    by blast
  from d(1,2) e(1) have "events (data # evs)" by (rule events_Cons)
  moreover from d(3) e(3) have "concat (inbound s) = concat (data # evs) @ concat (inbound s')"
    by simp
  ultimately show ?case using e(2,4) d(4) by (intro exI [of _ "data # evs"]) simp
qed

lemma client_dealer_stream_reads:
  "client_dealer_stream s hand = (s', Inr (hand', res)) \<Longrightarrow>
     \<exists>evs. events evs \<and> evs \<noteq> [] \<and> concat (inbound s) = concat evs @ concat (inbound s')
        \<and> outbound s' = outbound s"
proof (induction s hand rule: client_dealer_stream.induct)
  case (1 s hand)
  from "1.prems" obtain s1 r rank suit where
    rv: "recv_server_payload s = (s1, Inr (r, rank, suit))"
    by (auto simp: client_dealer_stream.simps [of s hand] split: prod.splits sum.splits)
  from recv_server_payload_Inr [OF rv] obtain data where
    d: "length data = 9" "unpack_server_payload data = Inr (r, rank, suit)"
       "data @ concat (inbound s1) = concat (inbound s)" "outbound s1 = outbound s"
    by blast
  show ?case
  proof (cases "r = RESULT_WIN \<or> r = RESULT_LOSS \<or> r = RESULT_TIE")
    case True
    with "1.prems" rv have "s' = s1"
      by (auto simp: client_dealer_stream.simps [of s hand])
    with d show ?thesis
      by (intro exI [of _ "[data]"]) (simp add: events_def)
  next
    case False
    with "1.prems" rv have rec: "client_dealer_stream s1 (hand @ [(rank, suit)]) = (s', Inr (hand', res))"
      by (auto simp: client_dealer_stream.simps [of s hand])
    from "1.IH" [OF rv [symmetric] refl refl refl False rec] obtain evs where
      e: "events evs" "concat (inbound s1) = concat evs @ concat (inbound s')"
         "outbound s' = outbound s1"
      by blast
    from d(1,2) e(1) have "events (data # evs)" by (rule events_Cons)
    moreover from d(3) e(2) have "concat (inbound s) = concat (data # evs) @ concat (inbound s')"
      by simp
    ultimately show ?thesis using e(3) d(4) by (intro exI [of _ "data # evs"]) simp
  qed
qed


lemma client_player_turn_reads:
  "client_player_turn s stdin hand = (s', stdin', Inr (hand', bust)) \<Longrightarrow>
     \<exists>evs. events evs \<and> concat (inbound s) = concat evs @ concat (inbound s')"
proof (induction s stdin hand rule: client_player_turn.induct)
  case (1 s stdin hand)
  from "1.prems" obtain line stdin1 where il: "input_line stdin = Inr (line, stdin1)"
    by (auto simp: client_player_turn.simps [of s stdin hand] split: sum.splits)
  define dec where "dec = lower (strip line)"
  show ?case
  proof (cases "dec \<noteq> str_lit ''hit'' \<and> dec \<noteq> str_lit ''stand''")
    case True
    with "1.prems" il have rec: "client_player_turn s stdin1 hand = (s', stdin', Inr (hand', bust))"
      by (simp add: client_player_turn.simps [of s stdin hand] dec_def)
    from "1.IH"(1) [OF il refl dec_def True rec] show ?thesis .
  next
    case False
    with "1.prems" il obtain m where pk: "pack_client_payload dec = Inr m"
      by (auto simp: client_player_turn.simps [of s stdin hand] dec_def Let_def split: sum.splits)
    define s1 where "s1 = sendall s m"
    have i1: "inbound s1 = inbound s" by (simp add: s1_def sendall_def)
    show ?thesis
    proof (cases "dec = str_lit ''stand''")
      case True
      with "1.prems" il pk have "s' = s1"
        by (simp add: client_player_turn.simps [of s stdin hand] dec_def s1_def)
      with i1 show ?thesis by (intro exI [of _ "[]"]) (simp add: events_Nil)
    next
      case ns: False
      with "1.prems" il pk False obtain s2 r rank suit where
        rv: "recv_server_payload s1 = (s2, Inr (r, rank, suit))"
        by (auto simp: client_player_turn.simps [of s stdin hand] dec_def s1_def Let_def
            split: prod.splits sum.splits)
      from recv_server_payload_Inr [OF rv] obtain data where
        d: "length data = 9" "unpack_server_payload data = Inr (r, rank, suit)"
           "data @ concat (inbound s2) = concat (inbound s1)"
        by blast
      have one: "events [data]" using d(1,2) events_Nil by (rule events_Cons)
      have step: "\<exists>evs. events evs \<and> concat (inbound s) = concat evs @ concat (inbound s')"
        if "\<exists>evs. events evs \<and> concat (inbound s2) = concat evs @ concat (inbound s')"
      proof -
        from that obtain evs where
          e: "events evs" "concat (inbound s2) = concat evs @ concat (inbound s')"
          by blast
        from d(1,2) e(1) have "events (data # evs)" by (rule events_Cons)
        moreover from d(3) e(2) i1 have "concat (inbound s) = concat (data # evs) @ concat (inbound s')"
          by simp
        ultimately show ?thesis by blast
      qed
      show ?thesis
      proof (cases "r = RESULT_NOT_OVER")
        case no: True
        show ?thesis
        proof (cases "21 < hand_value (hand @ [(rank, suit)])")
          case True
          with "1.prems" il pk False ns rv no have "s' = s2"
            by (simp add: client_player_turn.simps [of s stdin hand] dec_def s1_def)
          with d(3) i1 one show ?thesis by (intro exI [of _ "[data]"]) simp
        next
          case nb: False
          with "1.prems" il pk False ns rv no
          have rec: "client_player_turn s2 stdin1 (hand @ [(rank, suit)]) = (s', stdin', Inr (hand', bust))"
            by (simp add: client_player_turn.simps [of s stdin hand] dec_def s1_def)
          from "1.IH"(2) [OF il refl dec_def False pk s1_def ns rv [symmetric] refl refl refl
              no refl refl nb rec]
          show ?thesis by (rule step)
        qed
      next
        case no: False
        with "1.prems" il pk False ns rv
        have rec: "client_player_turn s2 stdin1 hand = (s', stdin', Inr (hand', bust))"
          by (simp add: client_player_turn.simps [of s stdin hand] dec_def s1_def)
        from "1.IH"(3) [OF il refl dec_def False pk s1_def ns rv [symmetric] refl refl refl
            no rec]
        show ?thesis by (rule step)
      qed
    qed
  qed
qed

lemma play_client_round_reads:
  assumes "play_client_round s stdin st = (s', stdin', Inr r)"
  shows "\<exists>evs. events evs \<and> 4 \<le> length evs
           \<and> concat (inbound s) = concat evs @ concat (inbound s')"
proof -
  from assms obtain s1 hand0 s2 x rank suit s3 hand1 bust dealer1 res where
    rc: "recv_cards 2 s [] = (s1, Inr hand0)" and
    rv: "recv_server_payload s1 = (s2, Inr (x, rank, suit))" and
    pt: "client_player_turn s2 stdin hand0 = (s3, stdin', Inr (hand1, bust))" and
    ds: "client_dealer_stream s3 [(rank, suit)] = (s', Inr (dealer1, res))"
    by (auto simp: play_client_round_def Let_def split: prod.splits sum.splits)
  from recv_cards_reads [OF rc] obtain e1 where
    e1: "events e1" "length e1 = 2" "concat (inbound s) = concat e1 @ concat (inbound s1)"
    by blast
  from recv_server_payload_Inr [OF rv] obtain data where
    d: "length data = 9" "unpack_server_payload data = Inr (x, rank, suit)"
       "data @ concat (inbound s2) = concat (inbound s1)"
    by blast
  from client_player_turn_reads [OF pt] obtain e3 where
    e3: "events e3" "concat (inbound s2) = concat e3 @ concat (inbound s3)"
    by blast
  from client_dealer_stream_reads [OF ds] obtain e4 where
    e4: "events e4" "e4 \<noteq> []" "concat (inbound s3) = concat e4 @ concat (inbound s')"
    by blast
  let ?evs = "e1 @ [data] @ e3 @ e4"
  have "events [data]" using d(1,2) events_Nil by (rule events_Cons)
  with e1(1) e3(1) e4(1) have "events ?evs" by (intro events_append)
  moreover from e1(2) e4(2) have "4 \<le> length ?evs" by (cases e4) auto
  moreover have "concat (inbound s) = concat ?evs @ concat (inbound s')"
    using e1(3) d(3) [symmetric] e3(2) e4(3) by simp
  ultimately show ?thesis by blast
qed

subsection \<open>The examples, evaluated\<close>

lemma ranks_list: "[1..13] = [1, 2, 3, 4, 5, 6, 7, 8, 9, 10, 11, 12, 13 :: int]"
  by (simp add: upto_rec1)

lemma handle_client_example:
  "handle_client (\<lambda>r xs. xs) session_example_sock
     = (session_example_sock', Inr [session_example_round])"
  by (simp add: handle_client_def REQUEST_SIZE_def unpack_request_eq close_def
      session_example_sock_def session_example_sock'_def session_example_round_def
      Deck_init_def fresh_cards_def SUITS_def RANKS_def ranks_list round_eval)

lemma lower_strip_example: "lower (strip (str_lit '' Stand'')) = str_lit ''stand''"
  by (simp add: lower_def strip_def isspace_def str_lit_def)

lemma lower_stand: "lower (str_lit ''stand'') = str_lit ''stand''"
  by (simp add: lower_def str_lit_def)

lemma stand_not_hit: "str_lit ''stand'' \<noteq> str_lit ''hit''"
  by (simp add: str_lit_def)

lemma recv_cards_2:
  "recv_cards 2 s hand =
     (case recv_server_payload s of
        (s1, Inl e) \<Rightarrow> (s1, Inl e)
      | (s1, Inr (x, rank, suit)) \<Rightarrow>
          (case recv_server_payload s1 of
             (s2, Inl e) \<Rightarrow> (s2, Inl e)
           | (s2, Inr (x', rank', suit')) \<Rightarrow> (s2, Inr (hand @ [(rank, suit)] @ [(rank', suit')]))))"
  by (simp add: numeral_2_eq_2 split: prod.splits sum.splits)

lemma play_client_round_example:
  "play_client_round client_example_sock [str_lit '' Stand''] \<lparr>wins = 0, losses = 0, ties = 0\<rparr>
     = (client_example_sock', [], Inr client_example_round)"
  by (simp add: play_client_round_def client_example_sock_def client_example_sock'_def
      client_example_round_def stand_round_sock'_def stand_msg_def
      recv_cards_2 recv_server_payload_def SERVER_PAYLOAD_SIZE_def
      recv_exact_def recv_exact_loop.simps recv_def unpack_server_payload_eq header_ok_def
      client_player_turn.simps client_dealer_stream.simps input_line_def lower_strip_example
      lower_stand stand_not_hit pack_client_payload_eq sendall_def bytes_lit_def
      RESULT_NOT_OVER_def RESULT_WIN_def RESULT_LOSS_def RESULT_TIE_def Let_def)

text \<open>
  Claim C8. For inputs in range, an encoded request is exactly 38 bytes, an encoded
  client decision exactly 10 bytes and an encoded server event exactly 9 bytes, each
  starting with the magic cookie and its type tag and carrying no length field. Each
  receiver reads exactly that many bytes for a message. A session that \<open>handle_client\<close>
  completes has taken from the stream a request of exactly 38 bytes, which decodes to
  the number of rounds played, and after it one decision of exactly 10 bytes for every
  decision the rounds asked for, each of which decodes, and has left the rest of the
  stream unread. A round the client completes has taken from its stream events of
  exactly 9 bytes each, at least four of them, each of which decodes, and nothing
  else. \<open>recv_exact\<close>, when it returns, returns exactly the next \<open>n\<close> bytes.
\<close>

theorem C8_fixed_message_sizes:
  "(0 \<le> rounds \<and> rounds \<le> 255 \<longrightarrow>
      (\<exists>m. pack_request rounds client_name = Inr m \<and> length m = 38 \<and> header_ok m 3))
   \<and> (lower decision = str_lit ''hit'' \<or> lower decision = str_lit ''stand'' \<longrightarrow>
      (\<exists>m. pack_client_payload decision = Inr m \<and> length m = 10 \<and> header_ok m 4))
   \<and> (0 \<le> res \<and> res \<le> 255 \<and> 0 \<le> rank \<and> rank \<le> 65535 \<and> 0 \<le> suit \<and> suit \<le> 255 \<longrightarrow>
      (\<exists>m. pack_server_payload res rank suit = Inr m \<and> length m = 9 \<and> header_ok m 4))
   \<and> p_REQUEST_SIZE = 38 \<and> p_CLIENT_PAYLOAD_SIZE = 10 \<and> p_SERVER_PAYLOAD_SIZE = 9
   \<and> REQUEST_SIZE = 38 \<and> CLIENT_PAYLOAD_SIZE = 10 \<and> SERVER_PAYLOAD_SIZE = 9
   \<and> (recv_exact s n = (s', Inr d) \<longrightarrow>
        length d = n \<and> d @ concat (inbound s') = concat (inbound s))
   \<and> (handle_client shuffle ss = (ss', Inr rds) \<longrightarrow>
        (\<exists>req ds name. length req = 38 \<and> unpack_request req = Inr (int (length rds), name)
           \<and> decisions ds \<and> length ds = sum_list (map decisions_read rds)
           \<and> concat (inbound ss) = req @ concat ds @ concat (inbound ss')))
   \<and> (play_client_round cs stdin st = (cs', stdin', Inr cr) \<longrightarrow>
        (\<exists>evs. events evs \<and> 4 \<le> length evs
           \<and> concat (inbound cs) = concat evs @ concat (inbound cs')))"
proof -
  have a: "0 \<le> rounds \<and> rounds \<le> 255 \<longrightarrow>
      (\<exists>m. pack_request rounds client_name = Inr m \<and> length m = 38 \<and> header_ok m 3)"
    by (simp add: pack_request_eq length_encode_team_name header_ok_def)
  have b: "lower decision = str_lit ''hit'' \<or> lower decision = str_lit ''stand'' \<longrightarrow>
      (\<exists>m. pack_client_payload decision = Inr m \<and> length m = 10 \<and> header_ok m 4)"
    by (simp add: pack_client_payload_eq header_ok_def bytes_lit_def)
  have c: "0 \<le> res \<and> res \<le> 255 \<and> 0 \<le> rank \<and> rank \<le> 65535 \<and> 0 \<le> suit \<and> suit \<le> 255 \<longrightarrow>
      (\<exists>m. pack_server_payload res rank suit = Inr m \<and> length m = 9 \<and> header_ok m 4)"
    by (simp add: pack_server_payload_ok header_ok_def)
  have d: "recv_exact s n = (s', Inr d) \<longrightarrow>
        length d = n \<and> d @ concat (inbound s') = concat (inbound s)"
    using recv_exact_ok by blast
  have e: "handle_client shuffle ss = (ss', Inr rds) \<longrightarrow>
        (\<exists>req ds name. length req = 38 \<and> unpack_request req = Inr (int (length rds), name)
           \<and> decisions ds \<and> length ds = sum_list (map decisions_read rds)
           \<and> concat (inbound ss) = req @ concat ds @ concat (inbound ss'))"
    using handle_client_reads by blast
  have f: "play_client_round cs stdin st = (cs', stdin', Inr cr) \<longrightarrow>
        (\<exists>evs. events evs \<and> 4 \<le> length evs
           \<and> concat (inbound cs) = concat evs @ concat (inbound cs'))"
    using play_client_round_reads by blast
  have g: "p_REQUEST_SIZE = 38 \<and> p_CLIENT_PAYLOAD_SIZE = 10 \<and> p_SERVER_PAYLOAD_SIZE = 9
   \<and> REQUEST_SIZE = 38 \<and> CLIENT_PAYLOAD_SIZE = 10 \<and> SERVER_PAYLOAD_SIZE = 9"
    by (simp add: sizes REQUEST_SIZE_def CLIENT_PAYLOAD_SIZE_def SERVER_PAYLOAD_SIZE_def)
  from a b c d e f g show ?thesis by blast
qed

theorem C8_fixed_message_sizes_witness:
  "(0::int) \<le> 3 \<and> (3::int) \<le> 255
   \<and> (\<exists>m. pack_request 3 (str_lit ''abc'') = Inr m \<and> length m = 38 \<and> header_ok m 3)
   \<and> lower (str_lit ''HIT'') = str_lit ''hit''
   \<and> (\<exists>m. pack_client_payload (str_lit ''HIT'') = Inr m \<and> length m = 10 \<and> header_ok m 4)
   \<and> (\<exists>m. pack_server_payload 0 13 3 = Inr m \<and> length m = 9 \<and> header_ok m 4)
   \<and> recv_exact \<lparr>inbound = [[1, 2], [3, 4, 5]], outbound = [], closed = False\<rparr> 3
        = (\<lparr>inbound = [[4, 5]], outbound = [], closed = False\<rparr>, Inr [1, 2, 3])
   \<and> length [1, 2, 3 :: byte] = 3
   \<and> handle_client (\<lambda>r xs. xs) session_example_sock
        = (session_example_sock', Inr [session_example_round])
   \<and> (\<exists>req ds name. length req = 38
           \<and> unpack_request req = Inr (int (length [session_example_round]), name)
           \<and> decisions ds \<and> length ds = sum_list (map decisions_read [session_example_round])
           \<and> concat (inbound session_example_sock)
               = req @ concat ds @ concat (inbound session_example_sock'))
   \<and> sum_list (map decisions_read [session_example_round]) = 1
   \<and> play_client_round client_example_sock [str_lit '' Stand''] \<lparr>wins = 0, losses = 0, ties = 0\<rparr>
        = (client_example_sock', [], Inr client_example_round)
   \<and> (\<exists>evs. events evs \<and> 4 \<le> length evs
           \<and> concat (inbound client_example_sock) = concat evs @ concat (inbound client_example_sock'))"
proof -
  note t = C8_fixed_message_sizes [of 3 "str_lit ''abc''" "str_lit ''HIT''" 0 13 3
          "\<lparr>inbound = [[1, 2], [3, 4, 5]], outbound = [], closed = False\<rparr>" 3
          "\<lparr>inbound = [[4, 5]], outbound = [], closed = False\<rparr>" "[1, 2, 3]"
          "\<lambda>r xs. xs" session_example_sock session_example_sock' "[session_example_round]"
          client_example_sock "[str_lit '' Stand'']" "\<lparr>wins = 0, losses = 0, ties = 0\<rparr>"
          client_example_sock' "[]" client_example_round]
  have l: "lower (str_lit ''HIT'') = str_lit ''hit''" by (simp add: lower_def str_lit_def)
  have n: "sum_list (map decisions_read [session_example_round]) = 1"
    by (simp add: decisions_read_def session_example_round_def)
  have i: "(0::int) \<le> 3 \<and> (3::int) \<le> 255 \<and> length [1, 2, 3 :: byte] = 3" by simp
  have r: "(0::int) \<le> 0 \<and> (0::int) \<le> 255 \<and> (0::int) \<le> 13 \<and> (13::int) \<le> 65535
           \<and> (0::int) \<le> 3 \<and> (3::int) \<le> 255" by simp
  from t l n i r recv_exact_example handle_client_example play_client_round_example
  show ?thesis by blast
qed

section \<open>The offer round trip\<close>

subsection \<open>One step of the decoder on well-formed and on cut sequences\<close>

lemma step1: "c < 0x80 \<Longrightarrow> utf8_step (c # rest) = (Some c, 1)"
  by simp

lemma step2:
  "2 \<le> q \<Longrightarrow> q < 32 \<Longrightarrow> r < 64 \<Longrightarrow>
     utf8_step ((0xC0 + q) # (0x80 + r) # rest) = (Some (q * 64 + r), 2)"
  by (simp add: cont_def)

lemma step3:
  "a < 16 \<Longrightarrow> b < 64 \<Longrightarrow> r < 64 \<Longrightarrow> (a = 0 \<longrightarrow> 32 \<le> b) \<Longrightarrow> (a = 13 \<longrightarrow> b < 32) \<Longrightarrow>
     utf8_step ((0xE0 + a) # (0x80 + b) # (0x80 + r) # rest) = (Some (a * 4096 + b * 64 + r), 3)"
  by (auto simp: cont_def)

lemma step4:
  "a < 5 \<Longrightarrow> b < 64 \<Longrightarrow> d < 64 \<Longrightarrow> r < 64 \<Longrightarrow> (a = 0 \<longrightarrow> 16 \<le> b) \<Longrightarrow> (a = 4 \<longrightarrow> b < 16) \<Longrightarrow>
     utf8_step ((0xF0 + a) # (0x80 + b) # (0x80 + d) # (0x80 + r) # rest)
       = (Some (a * 262144 + b * 4096 + d * 64 + r), 4)"
  by (auto simp: cont_def)

lemma part2: "2 \<le> q \<Longrightarrow> q < 32 \<Longrightarrow> utf8_step [0xC0 + q] = (None, 1)"
  by simp

lemma part3:
  "a < 16 \<Longrightarrow> b < 64 \<Longrightarrow> (a = 0 \<longrightarrow> 32 \<le> b) \<Longrightarrow> (a = 13 \<longrightarrow> b < 32) \<Longrightarrow>
     utf8_step [0xE0 + a] = (None, 1) \<and> utf8_step [0xE0 + a, 0x80 + b] = (None, 2)"
  by (auto simp: cont_def)

lemma part4:
  "a < 5 \<Longrightarrow> b < 64 \<Longrightarrow> d < 64 \<Longrightarrow> (a = 0 \<longrightarrow> 16 \<le> b) \<Longrightarrow> (a = 4 \<longrightarrow> b < 16) \<Longrightarrow>
     utf8_step [0xF0 + a] = (None, 1) \<and> utf8_step [0xF0 + a, 0x80 + b] = (None, 2)
     \<and> utf8_step [0xF0 + a, 0x80 + b, 0x80 + d] = (None, 3)"
  by (auto simp: cont_def)


subsection \<open>The bytes of an encoded code point\<close>

lemma unat_byte: "x < 256 \<Longrightarrow> unat (of_nat x :: byte) = x"
  by (rule of_nat_inverse [OF refl]) simp

lemma split3: "(c::nat) div 4096 * 4096 + c div 64 mod 64 * 64 + c mod 64 = c"
proof -
  have 1: "c div 64 * 64 + c mod 64 = c" by simp
  have 2: "c div 64 div 64 * 64 + c div 64 mod 64 = c div 64" by simp
  have 3: "c div 4096 = c div 64 div 64" using div_mult2_eq [of c 64 64] by simp
  show ?thesis using 1 2 unfolding 3 by linarith
qed

lemma split4:
  "(c::nat) div 262144 * 262144 + c div 4096 mod 64 * 4096 + c div 64 mod 64 * 64 + c mod 64 = c"
proof -
  have 1: "c div 4096 * 4096 + c div 64 mod 64 * 64 + c mod 64 = c" by (rule split3)
  have 2: "c div 4096 div 64 * 64 + c div 4096 mod 64 = c div 4096" by simp
  have 3: "c div 262144 = c div 4096 div 64" using div_mult2_eq [of c 4096 64] by simp
  show ?thesis using 1 2 unfolding 3 by linarith
qed

lemma enc1: "c < 0x80 \<Longrightarrow> map unat (utf8_encode_cp c) = [c]"
proof -
  assume a: "c < 0x80"
  then have u: "unat (of_nat c :: byte) = c" by (intro unat_byte) simp
  from a have e: "utf8_encode_cp c = [of_nat c]" by (simp add: utf8_encode_cp_def)
  show ?thesis unfolding e by (simp only: list.map u)
qed

lemma enc2:
  assumes "0x80 \<le> c" "c < 0x800"
  shows "map unat (utf8_encode_cp c) = [0xC0 + c div 64, 0x80 + c mod 64]"
proof -
  have b: "c div 64 < 32" using assms by (simp add: div_less_iff_less_mult)
  have u1: "unat (of_nat (0xC0 + c div 64) :: byte) = 0xC0 + c div 64"
    by (rule unat_byte) (use b in simp)
  have u2: "unat (of_nat (0x80 + c mod 64) :: byte) = 0x80 + c mod 64"
    by (rule unat_byte) simp
  from assms have e: "utf8_encode_cp c = [of_nat (0xC0 + c div 64), of_nat (0x80 + c mod 64)]"
    by (simp add: utf8_encode_cp_def)
  show ?thesis unfolding e by (simp only: list.map u1 u2)
qed

lemma enc3:
  assumes "0x800 \<le> c" "c < 0x10000" "\<not> (0xD800 \<le> c \<and> c < 0xE000)"
  shows "map unat (utf8_encode_cp c) = [0xE0 + c div 4096, 0x80 + c div 64 mod 64, 0x80 + c mod 64]"
proof -
  have b: "c div 4096 < 16" using assms by (simp add: div_less_iff_less_mult)
  have u1: "unat (of_nat (0xE0 + c div 4096) :: byte) = 0xE0 + c div 4096"
    by (rule unat_byte) (use b in simp)
  have u2: "unat (of_nat (0x80 + c div 64 mod 64) :: byte) = 0x80 + c div 64 mod 64"
    by (rule unat_byte) simp
  have u3: "unat (of_nat (0x80 + c mod 64) :: byte) = 0x80 + c mod 64"
    by (rule unat_byte) simp
  from assms have e: "utf8_encode_cp c =
      [of_nat (0xE0 + c div 4096), of_nat (0x80 + c div 64 mod 64), of_nat (0x80 + c mod 64)]"
    by (simp add: utf8_encode_cp_def)
  show ?thesis unfolding e by (simp only: list.map u1 u2 u3)
qed

lemma enc4:
  assumes "0x10000 \<le> c" "c < 0x110000"
  shows "map unat (utf8_encode_cp c)
         = [0xF0 + c div 262144, 0x80 + c div 4096 mod 64, 0x80 + c div 64 mod 64, 0x80 + c mod 64]"
proof -
  have b: "c div 262144 < 5" using assms by (simp add: div_less_iff_less_mult)
  have u1: "unat (of_nat (0xF0 + c div 262144) :: byte) = 0xF0 + c div 262144"
    by (rule unat_byte) (use b in simp)
  have u2: "unat (of_nat (0x80 + c div 4096 mod 64) :: byte) = 0x80 + c div 4096 mod 64"
    by (rule unat_byte) simp
  have u3: "unat (of_nat (0x80 + c div 64 mod 64) :: byte) = 0x80 + c div 64 mod 64"
    by (rule unat_byte) simp
  have u4: "unat (of_nat (0x80 + c mod 64) :: byte) = 0x80 + c mod 64"
    by (rule unat_byte) simp
  from assms have e: "utf8_encode_cp c =
      [of_nat (0xF0 + c div 262144), of_nat (0x80 + c div 4096 mod 64),
       of_nat (0x80 + c div 64 mod 64), of_nat (0x80 + c mod 64)]"
    by (simp add: utf8_encode_cp_def)
  show ?thesis unfolding e by (simp only: list.map u1 u2 u3 u4)
qed


lemma step_enc2:
  assumes "0x80 \<le> c" "c < 0x800"
  shows "utf8_step (map unat (utf8_encode_cp c) @ rest) = (Some c, 2)"
    and "utf8_step (take 1 (map unat (utf8_encode_cp c))) = (None, 1)"
proof -
  define q r where "q = c div 64" and "r = c mod 64"
  have eq: "q * 64 + r = c" by (simp add: q_def r_def)
  have r: "r < 64" by (simp add: r_def)
  from eq r assms have q: "2 \<le> q" "q < 32" by linarith+
  have e: "map unat (utf8_encode_cp c) = [0xC0 + q, 0x80 + r]"
    using enc2 [OF assms] by (simp add: q_def r_def)
  show "utf8_step (map unat (utf8_encode_cp c) @ rest) = (Some c, 2)"
    unfolding e using step2 [OF q r, of rest] eq by simp
  show "utf8_step (take 1 (map unat (utf8_encode_cp c))) = (None, 1)"
    unfolding e using part2 [OF q] by simp
qed

lemma step_enc3:
  assumes "0x800 \<le> c" "c < 0x10000" "\<not> (0xD800 \<le> c \<and> c < 0xE000)"
  shows "utf8_step (map unat (utf8_encode_cp c) @ rest) = (Some c, 3)"
    and "utf8_step (take 1 (map unat (utf8_encode_cp c))) = (None, 1)"
    and "utf8_step (take 2 (map unat (utf8_encode_cp c))) = (None, 2)"
proof -
  define a b r where "a = c div 4096" and "b = c div 64 mod 64" and "r = c mod 64"
  have eq: "a * 4096 + b * 64 + r = c" unfolding a_def b_def r_def by (rule split3)
  have r: "r < 64" and b: "b < 64" by (simp_all add: r_def b_def)
  from eq r b assms have a: "a < 16" by linarith
  have a0: "a = 0 \<longrightarrow> 32 \<le> b" using eq r b assms by linarith
  have a13: "a = 13 \<longrightarrow> b < 32" using eq r b assms by linarith
  have e: "map unat (utf8_encode_cp c) = [0xE0 + a, 0x80 + b, 0x80 + r]"
    using enc3 [OF assms] by (simp add: a_def b_def r_def)
  show "utf8_step (map unat (utf8_encode_cp c) @ rest) = (Some c, 3)"
    unfolding e using step3 [OF a b r a0 a13, of rest] eq by simp
  show "utf8_step (take 1 (map unat (utf8_encode_cp c))) = (None, 1)"
    unfolding e using part3 [OF a b a0 a13] by simp
  show "utf8_step (take 2 (map unat (utf8_encode_cp c))) = (None, 2)"
    unfolding e using part3 [OF a b a0 a13] by simp
qed

lemma step_enc4:
  assumes "0x10000 \<le> c" "c < 0x110000"
  shows "utf8_step (map unat (utf8_encode_cp c) @ rest) = (Some c, 4)"
    and "utf8_step (take 1 (map unat (utf8_encode_cp c))) = (None, 1)"
    and "utf8_step (take 2 (map unat (utf8_encode_cp c))) = (None, 2)"
    and "utf8_step (take 3 (map unat (utf8_encode_cp c))) = (None, 3)"
proof -
  define a b d r where "a = c div 262144" and "b = c div 4096 mod 64"
    and "d = c div 64 mod 64" and "r = c mod 64"
  have eq: "a * 262144 + b * 4096 + d * 64 + r = c"
    unfolding a_def b_def d_def r_def by (rule split4)
  have r: "r < 64" and d: "d < 64" and b: "b < 64" by (simp_all add: r_def d_def b_def)
  from eq r d b assms have a: "a < 5" by linarith
  have a0: "a = 0 \<longrightarrow> 16 \<le> b" using eq r d b assms by linarith
  have a4: "a = 4 \<longrightarrow> b < 16" using eq r d b assms by linarith
  have e: "map unat (utf8_encode_cp c) = [0xF0 + a, 0x80 + b, 0x80 + d, 0x80 + r]"
    using enc4 [OF assms] by (simp add: a_def b_def d_def r_def)
  show "utf8_step (map unat (utf8_encode_cp c) @ rest) = (Some c, 4)"
    unfolding e using step4 [OF a b d r a0 a4, of rest] eq by simp
  show "utf8_step (take 1 (map unat (utf8_encode_cp c))) = (None, 1)"
    unfolding e using part4 [OF a b d a0 a4] by simp
  show "utf8_step (take 2 (map unat (utf8_encode_cp c))) = (None, 2)"
    unfolding e using part4 [OF a b d a0 a4] by simp
  show "utf8_step (take 3 (map unat (utf8_encode_cp c))) = (None, 3)"
    unfolding e using part4 [OF a b d a0 a4] by simp
qed


subsection \<open>Decoding what was encoded\<close>

lemma length_enc:
  "length (utf8_encode_cp c) =
     (if c < 0x80 then 1 else if c < 0x800 then 2
      else if c < 0x10000 then (if 0xD800 \<le> c \<and> c < 0xE000 then 0 else 3)
      else if c < 0x110000 then 4 else 0)"
  by (simp add: utf8_encode_cp_def)

lemma step_enc:
  assumes "scalar c"
  shows "utf8_step (map unat (utf8_encode_cp c) @ rest) = (Some c, length (utf8_encode_cp c))"
proof -
  consider "c < 0x80" | "0x80 \<le> c" "c < 0x800"
    | "0x800 \<le> c" "c < 0x10000" "\<not> (0xD800 \<le> c \<and> c < 0xE000)"
    | "0x10000 \<le> c" "c < 0x110000"
    using assms unfolding scalar_def by linarith
  then show ?thesis
  proof cases
    case 1
    then show ?thesis using enc1 [of c] step1 [of c rest] by (simp add: length_enc)
  next
    case 2
    then show ?thesis using step_enc2(1) [of c rest] by (simp add: length_enc)
  next
    case 3
    then show ?thesis using step_enc3(1) [of c rest] by (simp add: length_enc)
  next
    case 4
    then show ?thesis using step_enc4(1) [of c rest] by (simp add: length_enc)
  qed
qed

lemma step_part:
  assumes "0 < k" "k < length (utf8_encode_cp c)"
  shows "utf8_step (take k (map unat (utf8_encode_cp c))) = (None, k)"
proof -
  consider "c < 0x80" | "0x80 \<le> c" "c < 0x800"
    | "0x800 \<le> c" "c < 0x10000" "\<not> (0xD800 \<le> c \<and> c < 0xE000)"
    | "0x10000 \<le> c" "c < 0x110000"
    | "0xD800 \<le> c \<and> c < 0xE000" | "0x110000 \<le> c"
    by linarith
  then show ?thesis
  proof cases
    case 1
    then show ?thesis using assms by (simp add: length_enc)
  next
    case 2
    then have "k = 1" using assms by (simp add: length_enc)
    then show ?thesis using step_enc2(2) [OF 2] by simp
  next
    case 3
    then have "length (utf8_encode_cp c) = 3" by (auto simp: length_enc)
    then have "k = 1 \<or> k = 2" using assms by auto
    then show ?thesis using step_enc3(2,3) [OF 3] by auto
  next
    case 4
    then have "length (utf8_encode_cp c) = 4" by (auto simp: length_enc)
    then have "k = 1 \<or> k = 2 \<or> k = 3" using assms by auto
    then show ?thesis using step_enc4(2,3,4) [OF 4] by auto
  next
    case 5
    then show ?thesis using assms by (simp add: length_enc)
  next
    case 6
    then show ?thesis using assms by (simp add: length_enc)
  qed
qed

lemma enc_nonempty: "scalar c \<Longrightarrow> utf8_encode_cp c \<noteq> []"
  unfolding scalar_def by (auto simp: utf8_encode_cp_def)

lemma decode_loop_enc:
  assumes "scalar c"
  shows "utf8_decode_loop (map unat (utf8_encode_cp c) @ rest) = c # utf8_decode_loop rest"
  using step_enc [OF assms, of rest] enc_nonempty [OF assms]
  by (subst utf8_decode_loop.simps) simp

lemma decode_loop_part:
  assumes "k < length (utf8_encode_cp c)"
  shows "utf8_decode_loop (take k (map unat (utf8_encode_cp c))) = []"
proof (cases "k = 0")
  case True
  then show ?thesis by (simp add: utf8_decode_loop.simps)
next
  case False
  then have "utf8_step (take k (map unat (utf8_encode_cp c))) = (None, k)"
    using step_part [of k c] assms by simp
  then show ?thesis
    by (subst utf8_decode_loop.simps) (simp add: utf8_decode_loop.simps [of "[]"])
qed

lemma decode_loop_encode:
  "list_all scalar s \<Longrightarrow>
     utf8_decode_loop (map unat (utf8_encode s) @ rest) = s @ utf8_decode_loop rest"
proof (induction s)
  case Nil
  then show ?case by (simp add: utf8_encode_def)
next
  case (Cons c s)
  then have "utf8_decode_loop (map unat (utf8_encode s) @ rest) = s @ utf8_decode_loop rest"
    by simp
  moreover have "map unat (utf8_encode (c # s)) @ rest
      = map unat (utf8_encode_cp c) @ (map unat (utf8_encode s) @ rest)"
    by (simp add: utf8_encode_def)
  ultimately show ?case using decode_loop_enc [of c] Cons.prems by simp
qed

lemma utf8_decode_encode: "list_all scalar s \<Longrightarrow> utf8_decode (utf8_encode s) = s"
  using decode_loop_encode [of s "[]"]
  by (simp add: utf8_decode_def utf8_decode_loop.simps [of "[]"])

lemma utf8_decode_encode_part:
  "list_all scalar s \<Longrightarrow> k < length (utf8_encode_cp c) \<Longrightarrow>
     utf8_decode (utf8_encode s @ take k (utf8_encode_cp c)) = s"
  using decode_loop_encode [of s "take k (map unat (utf8_encode_cp c))"] decode_loop_part [of k c]
  by (simp add: utf8_decode_def take_map)

subsection \<open>Names and offers\<close>

lemma enc_nonzero: "c \<noteq> 0 \<Longrightarrow> 0 \<notin> set (utf8_encode_cp c)"
proof
  assume c: "c \<noteq> 0" and z: "0 \<in> set (utf8_encode_cp c)"
  then have m: "0 \<in> set (map unat (utf8_encode_cp c))" by force
  consider "c < 0x80" | "0x80 \<le> c" "c < 0x800"
    | "0x800 \<le> c" "c < 0x10000" "\<not> (0xD800 \<le> c \<and> c < 0xE000)"
    | "0x10000 \<le> c" "c < 0x110000"
    | "0xD800 \<le> c \<and> c < 0xE000" | "0x110000 \<le> c"
    by linarith
  then show False
  proof cases
    case 1
    then show ?thesis using m c enc1 [of c] by simp
  next
    case 2
    then show ?thesis using m enc2 [of c] by simp
  next
    case 3
    then show ?thesis using m enc3 [of c] by simp
  next
    case 4
    then show ?thesis using m enc4 [of c] by simp
  next
    case 5
    then show ?thesis using z by (simp add: utf8_encode_cp_def)
  next
    case 6
    then show ?thesis using z by (simp add: utf8_encode_cp_def)
  qed
qed

lemma encode_nonzero: "0 \<notin> set s \<Longrightarrow> 0 \<notin> set (utf8_encode s)"
  using enc_nonzero by (induction s) (auto simp: utf8_encode_def)

lemma enc_part_nonzero:
  assumes "k < length (utf8_encode_cp c)"
  shows "0 \<notin> set (take k (utf8_encode_cp c))"
proof (cases "c = 0")
  case True
  then show ?thesis using assms by (simp add: length_enc)
next
  case False
  then show ?thesis using enc_nonzero [of c] set_take_subset [of k "utf8_encode_cp c"] by blast
qed

lemma takeWhile_nonzero:
  "0 \<notin> set xs \<Longrightarrow> takeWhile (\<lambda>b. b \<noteq> (0::byte)) (xs @ replicate n 0) = xs"
  by (induction xs) (auto simp: takeWhile_replicate)

lemma name_round_trip_short:
  assumes "list_all scalar N" "0 \<notin> set N" "length (utf8_encode N) \<le> 32"
  shows "decode_team_name (encode_team_name N) = N"
  using assms takeWhile_nonzero [OF encode_nonzero [OF assms(2)]] utf8_decode_encode [OF assms(1)]
  by (simp add: decode_team_name_def encode_team_name_def TEAM_NAME_LEN_def ljust0_def Let_def)

lemma name_round_trip_long:
  assumes "list_all scalar pre" "0 \<notin> set pre" "length (utf8_encode pre) \<le> 32"
    "32 < length (utf8_encode (pre @ [c]))"
  shows "decode_team_name (encode_team_name (pre @ c # suf)) = pre"
proof -
  define k where "k = 32 - length (utf8_encode pre)"
  have k: "k < length (utf8_encode_cp c)" using assms(3,4) by (simp add: k_def utf8_encode_def)
  have e: "utf8_encode (pre @ c # suf) = utf8_encode pre @ utf8_encode_cp c @ utf8_encode suf"
    by (simp add: utf8_encode_def)
  have t: "take 32 (utf8_encode (pre @ c # suf)) = utf8_encode pre @ take k (utf8_encode_cp c)"
    unfolding e using assms(3) k by (simp add: k_def)
  have l: "32 < length (utf8_encode (pre @ c # suf))" unfolding e using k by (simp add: k_def)
  have nz: "0 \<notin> set (utf8_encode pre @ take k (utf8_encode_cp c))"
    using encode_nonzero [OF assms(2)] enc_part_nonzero [OF k] by simp
  have en: "encode_team_name (pre @ c # suf) = utf8_encode pre @ take k (utf8_encode_cp c)"
    using l t by (simp add: encode_team_name_def TEAM_NAME_LEN_def Let_def)
  have tw: "takeWhile (\<lambda>b. b \<noteq> 0) (utf8_encode pre @ take k (utf8_encode_cp c))
          = utf8_encode pre @ take k (utf8_encode_cp c)"
    using takeWhile_nonzero [OF nz, of 0] by (simp only: replicate_0 append_Nil2)
  show ?thesis
    unfolding decode_team_name_def en tw by (rule utf8_decode_encode_part [OF assms(1) k])
qed

lemma offer_round_trip:
  assumes "0 \<le> P" "P \<le> 65535"
  shows "pack_offer P N = Inr ([0xab, 0xcd, 0xdc, 0xba, 2, of_int (P div 256), of_int P] @ encode_team_name N)"
    and "unpack_offer ([0xab, 0xcd, 0xdc, 0xba, 2, of_int (P div 256), of_int P] @ encode_team_name N)
           = Inr (P, decode_team_name (encode_team_name N))"
  using assms uint_of_int_hi [OF assms]
  by (simp_all add: pack_offer_eq unpack_offer_eq header_ok_def length_encode_team_name)


lemma takeWhile_padding:
  "takeWhile (\<lambda>b. b \<noteq> (0::byte)) (xs @ replicate n 0) = takeWhile (\<lambda>b. b \<noteq> 0) xs"
  by (induction xs) (auto simp: takeWhile_replicate)

lemma decode_encode_team_name:
  "decode_team_name (encode_team_name N)
     = utf8_decode (takeWhile (\<lambda>b. b \<noteq> 0) (take 32 (utf8_encode N)))"
  by (simp add: decode_team_name_def encode_team_name_def TEAM_NAME_LEN_def ljust0_def Let_def
      takeWhile_padding)

lemma utf8_encode_a: "utf8_encode (replicate n 97) = replicate n 97"
  by (induction n) (simp_all add: utf8_encode_def utf8_encode_cp_def)

lemma long_name_example:
  "list_all scalar (replicate 31 97) \<and> 0 \<notin> set (replicate 31 (97::nat))
   \<and> length (utf8_encode (replicate 31 97)) \<le> 32
   \<and> 32 < length (utf8_encode (replicate 31 97 @ [233]))"
proof -
  have "utf8_encode (replicate 31 97 @ [233]) = utf8_encode (replicate 31 97) @ utf8_encode_cp 233"
    by (simp add: utf8_encode_def)
  then show ?thesis
    by (simp add: utf8_encode_a length_enc list_all_iff scalar_def)
qed

lemma short_name_example:
  "list_all scalar [84, 233] \<and> 0 \<notin> set [84, 233 :: nat] \<and> length (utf8_encode [84, 233]) \<le> 32"
  by (simp add: scalar_def utf8_encode_def length_enc)

text \<open>
  Claim C7, as amended. For every port in the range of the field and every name,
  \<open>pack_offer\<close> succeeds with a message of 39 bytes, and \<open>unpack_offer\<close> returns from it
  the port and the decoding of the first 32 bytes of the name's UTF-8 encoding, up to
  the first zero byte. When the name has no NUL character and no lone surrogate and
  its encoding has at most 32 bytes, that is the name itself. When the name goes over
  32 bytes at the character \<open>c\<close> and nothing before \<open>c\<close> is a NUL or a lone surrogate,
  the round trip returns the characters before \<open>c\<close>: the longest prefix that fits,
  with the bytes of a character cut in the middle ignored. A port outside the range
  of the field is refused by \<open>struct.pack\<close>.
\<close>

theorem C7_offer_round_trip:
  "(0 \<le> P \<and> P \<le> 65535 \<longrightarrow>
      (\<exists>m. pack_offer P N = Inr m \<and> length m = 39
          \<and> unpack_offer m
              = Inr (P, utf8_decode (takeWhile (\<lambda>b. b \<noteq> 0) (take 32 (utf8_encode N))))))
   \<and> (0 \<le> P \<and> P \<le> 65535 \<and> list_all scalar N \<and> 0 \<notin> set N \<and> length (utf8_encode N) \<le> 32 \<longrightarrow>
      (\<exists>m. pack_offer P N = Inr m \<and> unpack_offer m = Inr (P, N)))
   \<and> (0 \<le> P \<and> P \<le> 65535 \<and> list_all scalar pre \<and> 0 \<notin> set pre
        \<and> length (utf8_encode pre) \<le> 32 \<and> 32 < length (utf8_encode (pre @ [c])) \<longrightarrow>
      (\<exists>m. pack_offer P (pre @ c # suf) = Inr m \<and> unpack_offer m = Inr (P, pre)))
   \<and> (\<not> (0 \<le> P \<and> P \<le> 65535) \<longrightarrow> pack_offer P N = Inl StructError)"
proof (intro conjI impI)
  assume p: "0 \<le> P \<and> P \<le> 65535"
  then show "\<exists>m. pack_offer P N = Inr m \<and> length m = 39
          \<and> unpack_offer m
              = Inr (P, utf8_decode (takeWhile (\<lambda>b. b \<noteq> 0) (take 32 (utf8_encode N))))"
    using offer_round_trip [of P N] decode_encode_team_name [of N]
    by (simp add: length_encode_team_name)
next
  assume a: "0 \<le> P \<and> P \<le> 65535 \<and> list_all scalar N \<and> 0 \<notin> set N \<and> length (utf8_encode N) \<le> 32"
  then show "\<exists>m. pack_offer P N = Inr m \<and> unpack_offer m = Inr (P, N)"
    using offer_round_trip [of P N] name_round_trip_short [of N] by simp
next
  assume a: "0 \<le> P \<and> P \<le> 65535 \<and> list_all scalar pre \<and> 0 \<notin> set pre
        \<and> length (utf8_encode pre) \<le> 32 \<and> 32 < length (utf8_encode (pre @ [c]))"
  then show "\<exists>m. pack_offer P (pre @ c # suf) = Inr m \<and> unpack_offer m = Inr (P, pre)"
    using offer_round_trip [of P "pre @ c # suf"] name_round_trip_long [of pre c suf] by simp
next
  assume "\<not> (0 \<le> P \<and> P \<le> 65535)"
  then show "pack_offer P N = Inl StructError" by (simp add: pack_offer_eq)
qed

theorem C7_offer_round_trip_witness:
  "(\<exists>m. pack_offer 13122 [84, 233] = Inr m \<and> length m = 39
       \<and> unpack_offer m = Inr (13122, [84, 233]))
   \<and> (\<exists>m. pack_offer 13122 (replicate 31 97 @ 233 # [98]) = Inr m
       \<and> unpack_offer m = Inr (13122, replicate 31 97))
   \<and> pack_offer 70000 [84, 233] = Inl StructError"
proof -
  note t = C7_offer_round_trip [of 13122 "[84, 233]" "replicate 31 97" 233 "[98]"]
  note u = C7_offer_round_trip [of 70000 "[84, 233]" "[]" 0 "[]"]
  have p: "(0::int) \<le> 13122 \<and> (13122::int) \<le> 65535" by simp
  have q: "\<not> ((0::int) \<le> 70000 \<and> (70000::int) \<le> 65535)" by simp
  from t p short_name_example
  have 1: "\<exists>m. pack_offer 13122 [84, 233] = Inr m \<and> length m = 39" by blast
  from t p short_name_example
  have 2: "\<exists>m. pack_offer 13122 [84, 233] = Inr m \<and> unpack_offer m = Inr (13122, [84, 233])"
    by blast
  from 1 2 have 3: "\<exists>m. pack_offer 13122 [84, 233] = Inr m \<and> length m = 39
       \<and> unpack_offer m = Inr (13122, [84, 233])" by auto
  from t p long_name_example
  have 4: "\<exists>m. pack_offer 13122 (replicate 31 97 @ 233 # [98]) = Inr m
       \<and> unpack_offer m = Inr (13122, replicate 31 97)" by blast
  from u q have 5: "pack_offer 70000 [84, 233] = Inl StructError" by blast
  from 3 4 5 show ?thesis by blast
qed

text \<open>
  The claim as first stated promises the name back for every name of at most 32 UTF-8
  bytes. A name with a NUL character in it has such an encoding, and comes back cut at
  the NUL, since \<open>decode_team_name\<close> keeps what stands before the first zero byte. A
  lone surrogate is dropped by \<^verbatim>\<open>errors="ignore"\<close> when the name is encoded.
\<close>

theorem C7_nul_name_counterexample:
  "length (utf8_encode [97, 0, 98]) = 3
   \<and> pack_offer 13122 [97, 0, 98]
       = Inr ([0xab, 0xcd, 0xdc, 0xba, 2, 0x33, 0x42, 97, 0, 98] @ replicate 29 0)
   \<and> unpack_offer ([0xab, 0xcd, 0xdc, 0xba, 2, 0x33, 0x42, 97, 0, 98] @ replicate 29 0)
       = Inr (13122, [97])
   \<and> pack_offer 13122 [97, 0xD800, 98]
       = Inr ([0xab, 0xcd, 0xdc, 0xba, 2, 0x33, 0x42, 97, 98] @ replicate 30 0)
   \<and> unpack_offer ([0xab, 0xcd, 0xdc, 0xba, 2, 0x33, 0x42, 97, 98] @ replicate 30 0)
       = Inr (13122, [97, 98])"
proof -
  have d1: "utf8_decode [97] = [97]" using utf8_decode_encode [of "[97]"]
    by (simp add: scalar_def utf8_encode_def utf8_encode_cp_def)
  have d2: "utf8_decode [97, 98] = [97, 98]" using utf8_decode_encode [of "[97, 98]"]
    by (simp add: scalar_def utf8_encode_def utf8_encode_cp_def)
  have e1: "encode_team_name [97, 0, 98] = [97, 0, 98] @ replicate 29 0"
    by (simp add: encode_team_name_def utf8_encode_def utf8_encode_cp_def ljust0_def TEAM_NAME_LEN_def)
  have e2: "encode_team_name [97, 0xD800, 98] = [97, 98] @ replicate 30 0"
    by (simp add: encode_team_name_def utf8_encode_def utf8_encode_cp_def ljust0_def TEAM_NAME_LEN_def)
  have l: "length (utf8_encode [97, 0, 98]) = 3"
    by (simp add: utf8_encode_def utf8_encode_cp_def)
  have p1: "pack_offer 13122 [97, 0, 98]
       = Inr ([0xab, 0xcd, 0xdc, 0xba, 2, 0x33, 0x42, 97, 0, 98] @ replicate 29 0)"
    by (simp add: pack_offer_eq e1)
  have p2: "pack_offer 13122 [97, 0xD800, 98]
       = Inr ([0xab, 0xcd, 0xdc, 0xba, 2, 0x33, 0x42, 97, 98] @ replicate 30 0)"
    by (simp add: pack_offer_eq e2)
  have u1: "unpack_offer ([0xab, 0xcd, 0xdc, 0xba, 2, 0x33, 0x42, 97, 0, 98] @ replicate 29 0)
       = Inr (13122, [97])"
    by (simp add: unpack_offer_eq header_ok_def decode_team_name_def d1)
  have u2: "unpack_offer ([0xab, 0xcd, 0xdc, 0xba, 2, 0x33, 0x42, 97, 98] @ replicate 30 0)
       = Inr (13122, [97, 98])"
    by (simp add: unpack_offer_eq header_ok_def decode_team_name_def d2 takeWhile_replicate)
  from l p1 p2 u1 u2 show ?thesis by blast
qed

end
